theory Spec2Isabelle
  imports Main "HOL-Library.Word" "HOL-Library.Char_ord" "HOL-Library.List_Lexorder"
begin

section \<open>Data model of the merge core (merge.cpp)\<close>

type_synonym docid_t = "32 word"
type_synonym gen_t = "64 word"
type_synonym str8_t = string

text \<open>A hit of a term in a document: position and payload bytes.\<close>

record term_hit =
  pos :: "16 word"
  payload :: "8 word list"

text \<open>
  \<open>dec->curDocument\<close>: the id of the current document; \<open>freq\<close> is the number of hits
  that \<open>materialize_hits\<close> yields for it, kept here as the list of those hits.
\<close>

record document =
  doc_id :: docid_t
  doc_hits :: "term_hit list"

text \<open>
  A postings decoder after \<open>begin()\<close>: it always exposes a current document;
  \<open>pending\<close> are the documents that successive \<open>next()\<close> calls move to.
\<close>

record decoder =
  curDocument :: document
  pending :: "document list"

definition dec_next :: "decoder \<Rightarrow> decoder option" where
  "dec_next d = (case pending d of [] \<Rightarrow> None
                 | x # xs \<Rightarrow> Some \<lparr>curDocument = x, pending = xs\<rparr>)"

definition dec_docs :: "decoder \<Rightarrow> document list" where
  "dec_docs d = curDocument d # pending d"

text \<open>The codec-defined descriptor of a term's postings; the chunk is opaque.\<close>

record term_index_ctx =
  documents :: "32 word"
  chunk :: nat

text \<open>The postings accessor of a segment.\<close>

record access_proxy =
  codec_identifier :: string
  new_decoder :: "term_index_ctx \<Rightarrow> decoder"

text \<open>
  A merge candidate. The term iterator is the list of the pairs it has still to
  produce (\<open>cur()\<close> is the head, \<open>next()\<close> drops it, \<open>done()\<close> is emptiness); a null
  iterator or accessor is \<open>None\<close>.
\<close>

record merge_candidate =
  gen :: gen_t
  terms :: "(str8_t \<times> term_index_ctx) list option"
  ap :: "access_proxy option"
  maskedDocuments :: "docid_t list"

text \<open>
  Modelled from the spec: the declaration of \<open>updated_documents\<close> is not part of
  merge.cpp. The test \<open>if (ud)\<close> of \<open>commit\<close> holds for the non-empty mask sets.
\<close>

definition ud_nonempty :: "docid_t list \<Rightarrow> bool" where
  "ud_nonempty ud = (ud \<noteq> [])"

text \<open>
  Modelled from the spec: \<open>masked_documents_registry\<close> is declared elsewhere. A registry
  made from the first \<open>n\<close> mask sets answers \<open>test\<close> by membership in any of them and
  is \<open>empty\<close> when it holds no mask set.
\<close>

type_synonym masked_documents_registry = "docid_t list list"

definition registry_make :: "docid_t list list \<Rightarrow> nat \<Rightarrow> masked_documents_registry" where
  "registry_make al n = take n al"

definition registry_test :: "masked_documents_registry \<Rightarrow> docid_t \<Rightarrow> bool" where
  "registry_test reg d = list_ex (\<lambda>ud. d \<in> set ud) reg"

definition registry_empty :: "masked_documents_registry \<Rightarrow> bool" where
  "registry_empty reg = (reg = [])"

section \<open>commit and scanner_registry_for\<close>

text \<open>
  The collection after \<open>commit\<close>: the candidates sorted by generation, descending,
  the prefix lengths \<open>map\<close> and the mask sets \<open>all\<close>.
\<close>

record collection =
  candidates :: "merge_candidate list"
  cmap :: "(merge_candidate \<times> nat) list"
  call :: "docid_t list list"

fun commit_loop ::
  "merge_candidate list \<Rightarrow> (merge_candidate \<times> nat) list \<Rightarrow> docid_t list list
     \<Rightarrow> (merge_candidate \<times> nat) list \<times> docid_t list list" where
  "commit_loop [] m al = (m, al)"
| "commit_loop (c # cs) m al =
     commit_loop cs (m @ [(c, length al)])
       (if ud_nonempty (maskedDocuments c) then al @ [maskedDocuments c] else al)"

text \<open>
  \<open>std::sort\<close> with the comparator \<open>b.gen < a.gen\<close>: descending generations.
  The order in which \<open>std::sort\<close> leaves candidates of equal generation is unspecified;
  here they keep the order in which they were added.
\<close>

definition sort_gen_desc :: "merge_candidate list \<Rightarrow> merge_candidate list" where
  "sort_gen_desc cs = rev (sort_key gen (rev cs))"

definition commit :: "merge_candidate list \<Rightarrow> collection" where
  "commit cs =
     (let sorted_cs = sort_gen_desc cs;
          (m, al) = commit_loop sorted_cs [] []
      in \<lparr>candidates = sorted_cs, cmap = m, call = al\<rparr>)"

definition scanner_registry_for :: "collection \<Rightarrow> nat \<Rightarrow> masked_documents_registry" where
  "scanner_registry_for col idx = registry_make (call col) (snd (cmap col ! idx))"

section \<open>consider_tracked_sources\<close>

datatype IndexSourceRetention = RetainAll | RetainDocumentIDsUpdates | Delete

definition UINT32_MAX :: nat where
  "UINT32_MAX = 4294967295"

text \<open>
  The loop over the sorted tracked sources, from index \<open>i\<close> on; \<open>xs\<close> are the sources
  from \<open>i\<close>, \<open>lastNotCandidateIdx\<close> is the running index.
\<close>

fun tracked_loop ::
  "gen_t list \<Rightarrow> nat \<Rightarrow> nat \<Rightarrow> gen_t list \<Rightarrow> (gen_t \<times> IndexSourceRetention) list" where
  "tracked_loop candidatesGens lastNotCandidateIdx i [] = []"
| "tracked_loop candidatesGens lastNotCandidateIdx i (g # xs) =
     (if g \<notin> set candidatesGens
      then (g, RetainAll) # tracked_loop candidatesGens i (Suc i) xs
      else if lastNotCandidateIdx < i
      then (g, RetainDocumentIDsUpdates) # tracked_loop candidatesGens lastNotCandidateIdx (Suc i) xs
      else (g, Delete) # tracked_loop candidatesGens lastNotCandidateIdx (Suc i) xs)"

text \<open>
  The index \<open>i\<close> is a \<open>uint32_t\<close> compared with the \<open>size_t\<close> count: with
  \<open>2 ^ 32\<close> or more tracked sources it wraps before reaching the count and the loop
  reads past the vector, which is the value \<open>None\<close> here.
\<close>

definition consider_tracked_sources ::
  "merge_candidate list \<Rightarrow> gen_t list \<Rightarrow> (gen_t \<times> IndexSourceRetention) list option" where
  "consider_tracked_sources cs trackedSources =
     (if length trackedSources \<le> UINT32_MAX
      then Some (tracked_loop (map gen cs) UINT32_MAX 0 (sort trackedSources))
      else None)"

text \<open>
  The classification as the specification words it: \<open>G\<close> are the candidate
  generations, \<open>T\<close> the tracked ones.
\<close>

definition retention_of :: "gen_t set \<Rightarrow> gen_t set \<Rightarrow> gen_t \<Rightarrow> IndexSourceRetention" where
  "retention_of G T g =
     (if g \<notin> G then RetainAll
      else if (\<exists>h\<in>T. h < g \<and> h \<notin> G) then RetainDocumentIDsUpdates
      else Delete)"

section \<open>merge: the collaborators\<close>

datatype merge_error =
  RequireFailed  \<comment> \<open>a \<open>require\<close> aborted the merge\<close>
| OutOfRange     \<comment> \<open>a read outside an array, or of a slot never written\<close>

text \<open>
  Modelled from the spec: \<open>MaxDocIDValue\<close> is declared elsewhere; it is the sentinel
  maximum document id.
\<close>

definition MaxDocIDValue :: docid_t where
  "MaxDocIDValue = - 1"

text \<open>
  Modelled from the spec: \<open>terms_cmp\<close> is declared elsewhere; it compares two terms
  lexicographically, bytewise, and returns a negative number, zero or a positive one.
\<close>

definition terms_cmp :: "str8_t \<Rightarrow> str8_t \<Rightarrow> int" where
  "terms_cmp a b = (if a < b then - 1 else if a = b then 0 else 1)"

text \<open>A participant of the codec's own merge: accessor, term context, registry.\<close>

record merge_participant =
  mp_ap :: access_proxy
  mp_tctx :: term_index_ctx
  mp_maskedDocsReg :: masked_documents_registry

text \<open>
  The output index session. Its codec is outside merge.cpp and is taken as a
  parameter: \<open>is_merge\<close> gives the documents that the codec's \<open>merge\<close> writes through
  the encoder for the participants, \<open>is_bytes\<close> the bytes a term's postings take in
  \<open>indexOut\<close>.
\<close>

record index_session =
  is_codec_identifier :: string
  is_merge :: "merge_participant list \<Rightarrow> document list"
  is_bytes :: "document list \<Rightarrow> nat"

text \<open>
  What merge writes: \<open>indexOut\<close> holds the postings of each term written so far (the
  \<open>chunk\<close> of an output term context is the position of its postings there), \<open>sink\<close>
  is the vector \<open>terms\<close> of the caller.
\<close>

record merge_output =
  indexOut :: "document list list"
  sink :: "(str8_t \<times> term_index_ctx) list"

definition indexOut_size :: "index_session \<Rightarrow> merge_output \<Rightarrow> nat" where
  "indexOut_size sess out = sum_list (map (is_bytes sess) (indexOut out))"

text \<open>
  Modelled from the spec: the encoder is declared elsewhere. Between \<open>begin_term\<close> and
  \<open>end_term\<close> it appends the documents it is given to the index, and \<open>end_term\<close>
  reports their number and the chunk.
\<close>

definition end_term :: "merge_output \<Rightarrow> document list \<Rightarrow> merge_output \<times> term_index_ctx" where
  "end_term out docs =
     (out\<lparr>indexOut := indexOut out @ [docs]\<rparr>,
      \<lparr>documents = of_nat (length docs), chunk = length (indexOut out)\<rparr>)"

text \<open>
  Modelled from the spec: \<open>append_index_chunk\<close> is declared elsewhere; it copies the
  postings of the term, as the accessor holds them, to the index and returns the chunk.
\<close>

definition append_index_chunk ::
  "merge_output \<Rightarrow> access_proxy \<Rightarrow> term_index_ctx \<Rightarrow> merge_output \<times> nat" where
  "append_index_chunk out a tctx =
     (out\<lparr>indexOut := indexOut out @ [dec_docs (new_decoder a tctx)]\<rparr>, length (indexOut out))"

text \<open>
  An entry of the working set \<open>all_\<close>: the position of the candidate in the collection
  and the candidate, whose iterator and accessor are not null (line 61), dereferenced.
\<close>

record tracked_candidate =
  idx :: nat
  tc_terms :: "(str8_t \<times> term_index_ctx) list"
  tc_ap :: access_proxy

section \<open>merge: the head of the function\<close>

text \<open>
  Lines 53 to 66: the generations must decrease strictly, and a candidate is tracked
  when it has an iterator that is not done and an accessor. \<open>prev\<close> is
  \<open>candidates[i - 1]\<close>, and \<open>None\<close> when \<open>i\<close> is 0.
\<close>

fun build_tracked ::
  "nat \<Rightarrow> merge_candidate option \<Rightarrow> merge_candidate list \<Rightarrow> merge_error + tracked_candidate list" where
  "build_tracked i prev [] = Inr []"
| "build_tracked i prev (c # cs) =
     (if (case prev of None \<Rightarrow> False | Some p \<Rightarrow> \<not> gen c < gen p) then Inl RequireFailed
      else case build_tracked (Suc i) (Some c) cs of
             Inl e \<Rightarrow> Inl e
           | Inr rest \<Rightarrow>
               (case (terms c, ap c) of
                  (Some ts, Some a) \<Rightarrow>
                    if ts \<noteq> [] then Inr (\<lparr>idx = i, tc_terms = ts, tc_ap = a\<rparr> # rest) else Inr rest
                | _ \<Rightarrow> Inr rest))"

section \<open>merge: selecting the lowest term\<close>

text \<open>
  The locals of one iteration of the outer loop. \<open>toAdvanceCnt\<close> is a \<open>uint8_t\<close>,
  so \<open>toAdvanceCnt++\<close> takes 255 to 0 and \<open>--toAdvanceCnt\<close> takes 0 to 255;
  \<open>toAdvance\<close> is the array of the indices to advance, a slot never written being
  \<open>None\<close>.
\<close>

record selection =
  toAdvanceCnt :: "8 word"
  toAdvance :: "nat option list"
  selected :: "str8_t \<times> term_index_ctx"
  codec :: string
  sameCODEC :: bool

definition select_step :: "selection \<Rightarrow> nat \<Rightarrow> tracked_candidate \<Rightarrow> selection" where
  "select_step s i t =
     (let pair = hd (tc_terms t);
          r = terms_cmp (fst pair) (fst (selected s))
      in if r < 0 then
           s\<lparr>toAdvanceCnt := 1, toAdvance := (toAdvance s)[0 := Some i], selected := pair,
             sameCODEC := True, codec := codec_identifier (tc_ap t)\<rparr>
         else if r = 0 then
           (let s' = (if sameCODEC s
                      then (if codec_identifier (tc_ap t) \<noteq> codec s
                            then s\<lparr>sameCODEC := False\<rparr> else s)
                      else s)
            in s'\<lparr>toAdvance := (toAdvance s')[unat (toAdvanceCnt s') := Some i],
                  toAdvanceCnt := toAdvanceCnt s' + 1\<rparr>)
         else s)"

fun select_loop :: "selection \<Rightarrow> nat \<Rightarrow> tracked_candidate list \<Rightarrow> selection" where
  "select_loop s i [] = s"
| "select_loop s i (t # ts) = select_loop (select_step s i t) (Suc i) ts"

definition select_terms :: "nat option list \<Rightarrow> tracked_candidate list \<Rightarrow> selection" where
  "select_terms ta al =
     select_loop
       \<lparr>toAdvanceCnt = 1, toAdvance = ta[0 := Some 0], selected = hd (tc_terms (hd al)),
        codec = codec_identifier (tc_ap (hd al)), sameCODEC = True\<rparr>
       1 (tl al)"

text \<open>
  Reading \<open>all[toAdvance[k]]\<close>: slot \<open>k\<close> must have been written and must index one of
  the \<open>rem\<close> entries of the working set.
\<close>

definition read_slot :: "nat option list \<Rightarrow> nat \<Rightarrow> nat \<Rightarrow> merge_error + nat" where
  "read_slot ta k rem =
     (if k < length ta
      then (case ta ! k of
              None \<Rightarrow> Inl OutOfRange
            | Some i \<Rightarrow> if i < rem then Inr i else Inl OutOfRange)
      else Inl OutOfRange)"

fun read_slots :: "nat option list \<Rightarrow> 'a list \<Rightarrow> nat list \<Rightarrow> merge_error + 'a list" where
  "read_slots ta al [] = Inr []"
| "read_slots ta al (k # ks) =
     (case read_slot ta k (length al) of
        Inl e \<Rightarrow> Inl e
      | Inr i \<Rightarrow> (case read_slots ta al ks of
                   Inl e \<Rightarrow> Inl e
                 | Inr xs \<Rightarrow> Inr (al ! i # xs)))"

section \<open>merge: one term, one candidate\<close>

text \<open>
  Lines 172 to 207: the \<open>do ... while (dec->next())\<close> loop over the documents of the
  decoder; \<open>cur\<close> is \<open>dec->curDocument\<close>, \<open>rest\<close> what \<open>next()\<close> still yields and
  \<open>enc\<close> the documents given to the encoder so far.
\<close>

fun reencode_docs ::
  "masked_documents_registry \<Rightarrow> document \<Rightarrow> document list \<Rightarrow> document list
     \<Rightarrow> merge_error + document list" where
  "reencode_docs maskedDocsReg cur rest enc =
     (if doc_id cur = MaxDocIDValue then Inl RequireFailed
      else (let enc' = (if \<not> registry_test maskedDocsReg (doc_id cur)
                        then enc @ [\<lparr>doc_id = doc_id cur, doc_hits = doc_hits cur\<rparr>]
                        else enc)
            in case rest of
                 [] \<Rightarrow> Inr enc'
               | x # xs \<Rightarrow> reencode_docs maskedDocsReg x xs enc'))"

definition push_term :: "str8_t \<Rightarrow> merge_output \<times> term_index_ctx \<Rightarrow> merge_output" where
  "push_term outTerm r =
     (case r of (out, tctx) \<Rightarrow>
        if documents tctx \<noteq> 0 then out\<lparr>sink := sink out @ [(outTerm, tctx)]\<rparr> else out)"

definition single_candidate_term ::
  "collection \<Rightarrow> index_session \<Rightarrow> selection \<Rightarrow> tracked_candidate list \<Rightarrow> merge_output
     \<Rightarrow> merge_error + merge_output" where
  "single_candidate_term col sess s al out =
     (let outTerm = fst (selected s);
          fastPath = (sameCODEC s \<and> codec s = is_codec_identifier sess)
      in case read_slot (toAdvance s) 0 (length al) of
           Inl e \<Rightarrow> Inl e
         | Inr i \<Rightarrow>
             (let c = al ! i;
                  maskedDocsReg = scanner_registry_for col (idx c)
              in if fastPath \<and> registry_empty maskedDocsReg then
                   (if documents (snd (selected s)) \<noteq> 0 then
                      (case append_index_chunk out (tc_ap c) (snd (selected s)) of
                         (out', ch) \<Rightarrow>
                           Inr (out'\<lparr>sink := sink out' @
                                  [(outTerm, \<lparr>documents = documents (snd (selected s)), chunk = ch\<rparr>)]\<rparr>))
                    else Inr out)
                 else if documents (snd (selected s)) = 0 then Inr out
                 else (let dec = new_decoder (tc_ap c) (snd (selected s))
                       in case reencode_docs maskedDocsReg (curDocument dec) (pending dec) [] of
                            Inl e \<Rightarrow> Inl e
                          | Inr docs \<Rightarrow> Inr (push_term outTerm (end_term out docs)))))"

section \<open>merge: one term, several candidates\<close>

text \<open>Lines 231 to 246: the participants of the codec's merge.\<close>

fun merge_participants :: "collection \<Rightarrow> tracked_candidate list \<Rightarrow> merge_participant list" where
  "merge_participants col [] = []"
| "merge_participants col (t # ts) =
     (if documents (snd (hd (tc_terms t))) \<noteq> 0
      then \<lparr>mp_ap = tc_ap t, mp_tctx = snd (hd (tc_terms t)),
            mp_maskedDocsReg = scanner_registry_for col (idx t)\<rparr> # merge_participants col ts
      else merge_participants col ts)"

definition fast_path_term ::
  "collection \<Rightarrow> index_session \<Rightarrow> selection \<Rightarrow> tracked_candidate list \<Rightarrow> merge_output
     \<Rightarrow> merge_error + merge_output" where
  "fast_path_term col sess s al out =
     (case read_slots (toAdvance s) al [0 ..< unat (toAdvanceCnt s)] of
        Inl e \<Rightarrow> Inl e
      | Inr tied \<Rightarrow>
          (let mergeParticipants = merge_participants col tied
           in if mergeParticipants \<noteq> []
              then Inr (push_term (fst (selected s)) (end_term out (is_merge sess mergeParticipants)))
              else Inr out))"

text \<open>Lines 264 to 281: one decoder, with its registry, for each candidate of the group.\<close>

fun new_decoders ::
  "collection \<Rightarrow> tracked_candidate list \<Rightarrow> (decoder \<times> masked_documents_registry) list" where
  "new_decoders col [] = []"
| "new_decoders col (t # ts) =
     (if documents (snd (hd (tc_terms t))) \<noteq> 0
      then (new_decoder (tc_ap t) (snd (hd (tc_terms t))), scanner_registry_for col (idx t))
             # new_decoders col ts
      else new_decoders col ts)"

text \<open>
  Lines 293 to 309: the lowest document id among the decoders and, in \<open>adv\<close>, the
  slots \<open>toAdvance[0 .. toAdvanceCnt)\<close> of the inner array.
\<close>

fun lowest_loop ::
  "docid_t \<times> nat list \<Rightarrow> nat \<Rightarrow> (decoder \<times> masked_documents_registry) list \<Rightarrow> docid_t \<times> nat list" where
  "lowest_loop (lowestDID, adv) i [] = (lowestDID, adv)"
| "lowest_loop (lowestDID, adv) i (d # ds) =
     (let did = doc_id (curDocument (fst d))
      in if did < lowestDID then lowest_loop (did, [i]) (Suc i) ds
         else if did = lowestDID then lowest_loop (lowestDID, adv @ [i]) (Suc i) ds
         else lowest_loop (lowestDID, adv) (Suc i) ds)"

definition lowest_select :: "(decoder \<times> masked_documents_registry) list \<Rightarrow> docid_t \<times> nat list" where
  "lowest_select decoders = lowest_loop (doc_id (curDocument (fst (hd decoders))), [0]) 1 (tl decoders)"

text \<open>
  Lines 343 to 358: the indices are taken from the last slot down; a decoder that has
  no next document is deleted and the ones after it move down; the empty list is
  \<open>goto l10\<close>.
\<close>

fun advance_decoders ::
  "nat list \<Rightarrow> (decoder \<times> masked_documents_registry) list
     \<Rightarrow> merge_error + (decoder \<times> masked_documents_registry) list" where
  "advance_decoders [] ds = Inr ds"
| "advance_decoders (i # rest) ds =
     (if length ds \<le> i then Inl OutOfRange
      else (case dec_next (fst (ds ! i)) of
              None \<Rightarrow>
                (let ds' = take i ds @ drop (Suc i) ds
                 in if ds' = [] then Inr [] else advance_decoders rest ds')
            | Some d' \<Rightarrow> advance_decoders rest (ds[i := (d', snd (ds ! i))])))"

text \<open>The measure of the inner loop: the decoders and the documents they still hold.\<close>

definition decoders_weight :: "(decoder \<times> masked_documents_registry) list \<Rightarrow> nat" where
  "decoders_weight ds = sum_list (map (\<lambda>d. Suc (length (pending (fst d)))) ds)"

lemma lowest_loop_nonempty: "adv \<noteq> [] \<Longrightarrow> snd (lowest_loop (l, adv) i ds) \<noteq> []"
  by (induction ds arbitrary: l adv i) (auto simp: Let_def)

lemma lowest_select_nonempty: "snd (lowest_select ds) \<noteq> []"
  by (simp add: lowest_select_def lowest_loop_nonempty)

lemma weight_remove:
  "i < length ds \<Longrightarrow> decoders_weight (take i ds @ drop (Suc i) ds) < decoders_weight ds"
proof -
  assume "i < length ds"
  then have "ds = take i ds @ ds ! i # drop (Suc i) ds" by (simp add: id_take_nth_drop)
  then have "decoders_weight ds = decoders_weight (take i ds @ ds ! i # drop (Suc i) ds)" by simp
  then show ?thesis by (simp add: decoders_weight_def)
qed

lemma weight_update:
  "i < length ds \<Longrightarrow> dec_next (fst (ds ! i)) = Some d' \<Longrightarrow>
   decoders_weight (ds[i := (d', r)]) < decoders_weight ds"
proof -
  assume a: "i < length ds" and b: "dec_next (fst (ds ! i)) = Some d'"
  have c: "ds = take i ds @ ds ! i # drop (Suc i) ds" using a by (simp add: id_take_nth_drop)
  have d: "ds[i := (d', r)] = take i ds @ (d', r) # drop (Suc i) ds" using a by (simp add: upd_conv_take_nth_drop)
  have e: "length (pending d') < length (pending (fst (ds ! i)))"
    using b by (auto simp: dec_next_def split: list.splits)
  have "decoders_weight ds = decoders_weight (take i ds @ ds ! i # drop (Suc i) ds)" using c by simp
  then show ?thesis using e by (simp add: d decoders_weight_def)
qed

lemma advance_decoders_le:
  "advance_decoders is ds = Inr ds' \<Longrightarrow> decoders_weight ds' \<le> decoders_weight ds"
proof (induction "is" arbitrary: ds)
  case Nil
  then show ?case by simp
next
  case (Cons i rest)
  show ?case
  proof (cases "dec_next (fst (ds ! i))")
    case None
    then show ?thesis using Cons.prems Cons.IH [of "take i ds @ drop (Suc i) ds"] weight_remove [of i ds]
      by (auto simp: Let_def decoders_weight_def split: if_splits)
  next
    case (Some d')
    then show ?thesis using Cons.prems Cons.IH [of "ds[i := (d', snd (ds ! i))]"] weight_update [of i ds d' "snd (ds ! i)"]
      by (auto split: if_splits)
  qed
qed

lemma advance_decoders_less:
  "advance_decoders is ds = Inr ds' \<Longrightarrow> is \<noteq> [] \<Longrightarrow> decoders_weight ds' < decoders_weight ds"
proof (cases "is")
  case Nil
  assume "is \<noteq> []" then show ?thesis using Nil by simp
next
  case (Cons i rest)
  assume a: "advance_decoders is ds = Inr ds'"
  show ?thesis
  proof (cases "dec_next (fst (ds ! i))")
    case None
    then show ?thesis using a Cons advance_decoders_le [of rest "take i ds @ drop (Suc i) ds" ds'] weight_remove [of i ds]
      by (auto simp: Let_def decoders_weight_def split: if_splits)
  next
    case (Some d')
    then show ?thesis using a Cons advance_decoders_le [of rest "ds[i := (d', snd (ds ! i))]" ds'] weight_update [of i ds d' "snd (ds ! i)"]
      by (auto split: if_splits)
  qed
qed

lemma merge_decoders_term:
  "lowest_select decoders = (l, adv) \<Longrightarrow> advance_decoders (rev adv) decoders = Inr ds' \<Longrightarrow>
   decoders_weight ds' < decoders_weight decoders"
  using lowest_select_nonempty [of decoders] advance_decoders_less [of "rev adv" decoders ds']
  by simp

text \<open>
  Lines 291 to 359: the inner loop over the decoders; \<open>enc\<close> are the documents given
  to the encoder so far. The first slot is the decoder of the lowest index: its hits
  are written when its registry does not mask the document.
\<close>

function merge_decoders ::
  "(decoder \<times> masked_documents_registry) list \<Rightarrow> document list \<Rightarrow> merge_error + document list" where
  "merge_decoders decoders enc =
     (case lowest_select decoders of
        (lowestDID, adv) \<Rightarrow>
          (let first = decoders ! hd adv;
               enc' = (if \<not> registry_test (snd first) lowestDID
                       then enc @ [\<lparr>doc_id = lowestDID, doc_hits = doc_hits (curDocument (fst first))\<rparr>]
                       else enc)
           in case advance_decoders (rev adv) decoders of
                Inl e \<Rightarrow> Inl e
              | Inr [] \<Rightarrow> Inr enc'
              | Inr (d # ds) \<Rightarrow> merge_decoders (d # ds) enc'))"
  by pat_completeness auto
termination
  apply (relation "measure (\<lambda>(ds, enc). decoders_weight ds)")
   apply simp
  apply clarsimp
  apply (rule merge_decoders_term [OF sym])
   apply assumption+
  done

declare merge_decoders.simps [simp del]


text \<open>
  Lines 283 to 367: the inner array \<open>toAdvance\<close> has 128 slots, and the \<open>require\<close>
  aborts when there are more decoders.
\<close>

definition slow_path_term ::
  "collection \<Rightarrow> index_session \<Rightarrow> selection \<Rightarrow> tracked_candidate list \<Rightarrow> merge_output
     \<Rightarrow> merge_error + merge_output" where
  "slow_path_term col sess s al out =
     (case read_slots (toAdvance s) al [0 ..< unat (toAdvanceCnt s)] of
        Inl e \<Rightarrow> Inl e
      | Inr tied \<Rightarrow>
          (let decodersV = new_decoders col tied
           in if decodersV \<noteq> []
              then (if \<not> length decodersV \<le> 128 then Inl RequireFailed
                    else case merge_decoders decodersV [] of
                           Inl e \<Rightarrow> Inl e
                         | Inr docs \<Rightarrow> Inr (push_term (fst (selected s)) (end_term out docs)))
              else Inr out))"

definition process_term ::
  "collection \<Rightarrow> index_session \<Rightarrow> selection \<Rightarrow> tracked_candidate list \<Rightarrow> merge_output
     \<Rightarrow> merge_error + merge_output" where
  "process_term col sess s al out =
     (if toAdvanceCnt s = 1 then single_candidate_term col sess s al out
      else if sameCODEC s \<and> codec s = is_codec_identifier sess then fast_path_term col sess s al out
      else slow_path_term col sess s al out)"

section \<open>merge: advancing the iterators, and the outer loop\<close>

text \<open>The measure of the outer loop: the terms the working set still holds.\<close>

definition terms_weight :: "tracked_candidate list \<Rightarrow> nat" where
  "terms_weight al = sum_list (map (\<lambda>t. length (tc_terms t)) al)"

text \<open>
  Lines 376 to 389: \<open>do ... while (toAdvanceCnt)\<close> with the \<open>uint8_t\<close> counter; the
  iterator of \<open>all[idx]\<close> moves to its next term and, when it is done, the entry is
  removed and the ones after it move down; the empty list is \<open>goto l1\<close>.
\<close>

lemma u8_dec_less:
  "cnt - 1 \<noteq> 0 \<Longrightarrow> unat (cnt - 1) < (if cnt = 0 then 256 else unat cnt)" for cnt :: "8 word"
proof (cases "cnt = 0")
  case True
  have "unat (cnt - 1) < 2 ^ LENGTH(8)" by (rule unsigned_less)
  then show ?thesis using True by simp
next
  case False
  assume "cnt - 1 \<noteq> 0"
  have "unat (cnt - 1) = unat cnt - 1" using False by (simp add: unat_minus_one)
  moreover have "unat cnt \<noteq> 0" using False by (simp add: unat_eq_0)
  ultimately show ?thesis using False by simp
qed

function advance_terms ::
  "8 word \<Rightarrow> nat option list \<Rightarrow> tracked_candidate list \<Rightarrow> merge_error + tracked_candidate list" where
  "advance_terms cnt ta al =
     (let cnt' = cnt - 1
      in case read_slot ta (unat cnt') (length al) of
           Inl e \<Rightarrow> Inl e
         | Inr i \<Rightarrow>
             (let ts = tl (tc_terms (al ! i))
              in if ts = [] then
                   (let al' = take i al @ drop (Suc i) al
                    in if al' = [] then Inr []
                       else if cnt' \<noteq> 0 then advance_terms cnt' ta al' else Inr al')
                 else
                   (let al' = al[i := (al ! i)\<lparr>tc_terms := ts\<rparr>]
                    in if cnt' \<noteq> 0 then advance_terms cnt' ta al' else Inr al')))"
  by pat_completeness auto
termination
  by (relation "measure (\<lambda>(cnt, ta, al). if cnt = 0 then 256 else unat cnt)")
    (auto simp: u8_dec_less)

declare advance_terms.simps [simp del]

lemma terms_weight_remove:
  "i < length al \<Longrightarrow>
   terms_weight (take i al @ drop (Suc i) al) + length (tc_terms (al ! i)) = terms_weight al"
proof -
  assume "i < length al"
  then have "al = take i al @ al ! i # drop (Suc i) al" by (simp add: id_take_nth_drop)
  then have "terms_weight al = terms_weight (take i al @ al ! i # drop (Suc i) al)" by simp
  then show ?thesis by (simp add: terms_weight_def)
qed

lemma terms_weight_update:
  "i < length al \<Longrightarrow>
   terms_weight (al[i := t]) + length (tc_terms (al ! i)) = terms_weight al + length (tc_terms t)"
proof -
  assume a: "i < length al"
  have c: "al = take i al @ al ! i # drop (Suc i) al" using a by (simp add: id_take_nth_drop)
  have d: "al[i := t] = take i al @ t # drop (Suc i) al" using a by (simp add: upd_conv_take_nth_drop)
  have "terms_weight al = terms_weight (take i al @ al ! i # drop (Suc i) al)" using c by simp
  then show ?thesis by (simp add: d terms_weight_def)
qed

lemma read_slot_Inr: "read_slot ta k n = Inr i \<Longrightarrow> i < n \<and> k < length ta \<and> ta ! k = Some i"
  by (auto simp: read_slot_def split: if_splits option.splits)

lemma advance_terms_le:
  "advance_terms cnt ta al = Inr al' \<Longrightarrow> terms_weight al' \<le> terms_weight al"
proof (induction cnt ta al rule: advance_terms.induct)
  case (1 cnt ta al)
  let ?k = "cnt - 1"
  from "1.prems" obtain i where rs: "read_slot ta (unat ?k) (length al) = Inr i"
    by (subst (asm) advance_terms.simps) (auto simp: Let_def split: sum.splits)
  then have i: "i < length al" by (auto dest: read_slot_Inr)
  let ?ts = "tl (tc_terms (al ! i))"
  show ?case
  proof (cases "?ts = []")
    case True
    let ?al = "take i al @ drop (Suc i) al"
    have w: "terms_weight ?al \<le> terms_weight al" using terms_weight_remove [OF i] by simp
    show ?thesis
    proof (cases "?al = [] \<or> ?k = 0")
      case True
      then have "al' = [] \<or> al' = ?al" using "1.prems" rs \<open>?ts = []\<close>
        by (subst (asm) advance_terms.simps) (auto simp: Let_def split: if_splits)
      then show ?thesis using w by (auto simp: terms_weight_def)
    next
      case False
      then have "advance_terms ?k ta ?al = Inr al'" using "1.prems" rs \<open>?ts = []\<close>
        by (subst (asm) advance_terms.simps) (auto simp: Let_def split: if_splits)
      then have "terms_weight al' \<le> terms_weight ?al"
        using "1.IH"(1) [OF refl rs refl True refl] False by simp
      then show ?thesis using w by simp
    qed
  next
    case False
    let ?al = "al[i := (al ! i)\<lparr>tc_terms := ?ts\<rparr>]"
    have "length ?ts \<le> length (tc_terms (al ! i))" by simp
    then have w: "terms_weight ?al \<le> terms_weight al"
      using terms_weight_update [OF i, of "(al ! i)\<lparr>tc_terms := ?ts\<rparr>"] by simp
    show ?thesis
    proof (cases "?k = 0")
      case True
      then have "al' = ?al" using "1.prems" rs \<open>?ts \<noteq> []\<close>
        by (subst (asm) advance_terms.simps) (auto simp: Let_def split: if_splits)
      then show ?thesis using w by simp
    next
      case k: False
      then have "advance_terms ?k ta ?al = Inr al'" using "1.prems" rs \<open>?ts \<noteq> []\<close>
        by (subst (asm) advance_terms.simps) (auto simp: Let_def split: if_splits)
      then have "terms_weight al' \<le> terms_weight ?al"
        using "1.IH"(2) [OF refl rs refl False refl] k by simp
      then show ?thesis using w by simp
    qed
  qed
qed


lemma advance_terms_less:
  assumes "advance_terms cnt ta al = Inr al'" and "\<not> list_ex (\<lambda>t. tc_terms t = []) al"
  shows "terms_weight al' < terms_weight al"
proof -
  let ?k = "cnt - 1"
  from assms(1) obtain i where rs: "read_slot ta (unat ?k) (length al) = Inr i"
    by (subst (asm) advance_terms.simps) (auto simp: Let_def split: sum.splits)
  then have i: "i < length al" by (auto dest: read_slot_Inr)
  then have ne: "tc_terms (al ! i) \<noteq> []" using assms(2) by (auto simp: list_ex_iff)
  let ?ts = "tl (tc_terms (al ! i))"
  show ?thesis
  proof (cases "?ts = []")
    case True
    let ?al = "take i al @ drop (Suc i) al"
    have "0 < length (tc_terms (al ! i))" using ne by simp
    then have w: "terms_weight ?al < terms_weight al" using terms_weight_remove [OF i] by linarith
    show ?thesis
    proof (cases "?al = [] \<or> ?k = 0")
      case True
      then have "al' = [] \<or> al' = ?al" using assms(1) rs \<open>?ts = []\<close>
        by (subst (asm) advance_terms.simps) (auto simp: Let_def split: if_splits)
      then show ?thesis using w by (auto simp: terms_weight_def)
    next
      case False
      then have "advance_terms ?k ta ?al = Inr al'" using assms(1) rs \<open>?ts = []\<close>
        by (subst (asm) advance_terms.simps) (auto simp: Let_def split: if_splits)
      then have "terms_weight al' \<le> terms_weight ?al" by (rule advance_terms_le)
      then show ?thesis using w by simp
    qed
  next
    case False
    let ?al = "al[i := (al ! i)\<lparr>tc_terms := ?ts\<rparr>]"
    have "length ?ts < length (tc_terms (al ! i))" using ne by simp
    then have w: "terms_weight ?al < terms_weight al"
      using terms_weight_update [OF i, of "(al ! i)\<lparr>tc_terms := ?ts\<rparr>"] by simp
    show ?thesis
    proof (cases "?k = 0")
      case True
      then have "al' = ?al" using assms(1) rs \<open>?ts \<noteq> []\<close>
        by (subst (asm) advance_terms.simps) (auto simp: Let_def split: if_splits)
      then show ?thesis using w by simp
    next
      case k: False
      then have "advance_terms ?k ta ?al = Inr al'" using assms(1) rs \<open>?ts \<noteq> []\<close>
        by (subst (asm) advance_terms.simps) (auto simp: Let_def split: if_splits)
      then have "terms_weight al' \<le> terms_weight ?al" by (rule advance_terms_le)
      then show ?thesis using w by simp
    qed
  qed
qed

text \<open>
  Lines 89 to 390. \<open>cur()\<close> is read on every entry of the working set, which must
  not be done. The branch on \<open>flushFreq\<close> (lines 371 to 374) has an empty body.
\<close>

function merge_loop ::
  "collection \<Rightarrow> index_session \<Rightarrow> nat \<Rightarrow> nat option list \<Rightarrow> tracked_candidate list
     \<Rightarrow> merge_output \<Rightarrow> merge_error + merge_output" where
  "merge_loop col sess flushFreq ta al out =
     (if al = [] \<or> list_ex (\<lambda>t. tc_terms t = []) al then Inl OutOfRange
      else (let s = select_terms ta al
            in case process_term col sess s al out of
                 Inl e \<Rightarrow> Inl e
               | Inr out' \<Rightarrow>
                   (let out'' = (if flushFreq \<noteq> 0 \<and> flushFreq < indexOut_size sess out'
                                 then out' else out')
                    in case advance_terms (toAdvanceCnt s) (toAdvance s) al of
                         Inl e \<Rightarrow> Inl e
                       | Inr [] \<Rightarrow> Inr out''
                       | Inr (t # ts) \<Rightarrow> merge_loop col sess flushFreq (toAdvance s) (t # ts) out'')))"
  by pat_completeness auto
termination
  apply (relation "measure (\<lambda>(col, sess, flushFreq, ta, al, out). terms_weight al)")
   apply simp
  apply clarsimp
  apply (rule advance_terms_less)
   apply assumption+
  done

declare merge_loop.simps [simp del]

text \<open>
  \<open>merge\<close>: lines 51 to 69, then the loop. \<open>out\<close> is the state of the index and of
  the vector \<open>terms\<close> at the call.
\<close>

definition merge_head :: "merge_candidate list \<Rightarrow> merge_error + tracked_candidate list" where
  "merge_head cs =
     (if \<not> length cs < 65535 then Inl RequireFailed else build_tracked 0 None cs)"

definition merge ::
  "collection \<Rightarrow> index_session \<Rightarrow> merge_output \<Rightarrow> nat \<Rightarrow> merge_error + merge_output" where
  "merge col sess out flushFreq =
     (case merge_head (candidates col) of
        Inl e \<Rightarrow> Inl e
      | Inr tracked \<Rightarrow>
          if tracked = [] then Inr out
          else merge_loop col sess flushFreq (replicate (length tracked) None) tracked out)"

section \<open>Proofs: consider_tracked_sources\<close>

lemma tracked_loop_spec:
  "sorted (pre @ xs) \<Longrightarrow> length pre = i \<Longrightarrow> i + length xs \<le> UINT32_MAX \<Longrightarrow>
   (l < i \<or> l = UINT32_MAX) \<Longrightarrow> (l < i \<longleftrightarrow> (\<exists>h\<in>set pre. h \<notin> set gl)) \<Longrightarrow>
   tracked_loop gl l i xs = map (\<lambda>g. (g, retention_of (set gl) (set (pre @ xs)) g)) xs"
proof (induction xs arbitrary: pre i l)
  case Nil
  then show ?case by simp
next
  case (Cons g xs)
  have srt: "sorted ((pre @ [g]) @ xs)" using Cons.prems(1) by simp
  have len: "length (pre @ [g]) = Suc i" using Cons.prems(2) by simp
  have bnd: "Suc i + length xs \<le> UINT32_MAX" using Cons.prems(3) by simp
  have ilt: "i < UINT32_MAX" using Cons.prems(3) by simp
  have pre_le: "\<forall>h\<in>set pre. h \<le> g" using Cons.prems(1) by (auto simp: sorted_append)
  have xs_ge: "\<forall>h\<in>set xs. g \<le> h" using Cons.prems(1) by (auto simp: sorted_append)
  show ?case
  proof (cases "g \<in> set gl")
    case False
    have "tracked_loop gl i (Suc i) xs =
            map (\<lambda>g'. (g', retention_of (set gl) (set ((pre @ [g]) @ xs)) g')) xs"
      using False by (intro Cons.IH [OF srt len bnd]) auto
    then show ?thesis using False
      by (simp add: retention_of_def del: append_assoc)
  next
    case True
    have ex_iff: "(\<exists>h\<in>set (pre @ g # xs). h < g \<and> h \<notin> set gl) \<longleftrightarrow> (\<exists>h\<in>set pre. h \<notin> set gl)"
      using pre_le xs_ge True by (auto simp: less_le)
    have l': "l < Suc i \<or> l = UINT32_MAX" using Cons.prems(4) by auto
    have l'': "l < Suc i \<longleftrightarrow> (\<exists>h\<in>set (pre @ [g]). h \<notin> set gl)"
      using Cons.prems(4,5) True ilt by auto
    have IH: "tracked_loop gl l (Suc i) xs =
                map (\<lambda>g'. (g', retention_of (set gl) (set ((pre @ [g]) @ xs)) g')) xs"
      by (rule Cons.IH [OF srt len bnd l' l''])
    show ?thesis using True IH ex_iff Cons.prems(5)
      by (simp add: retention_of_def del: append_assoc)
  qed
qed

text \<open>
  C4. Iterating the tracked generations in ascending order, \<open>consider_tracked_sources\<close>
  gives a generation \<open>RetainAll\<close> exactly when it is not a candidate generation,
  \<open>RetainDocumentIDsUpdates\<close> when it is one and a strictly smaller tracked generation is
  not, and \<open>Delete\<close> when it is one and no strictly smaller tracked generation is a
  non-candidate; the result is a function of the set of candidate generations and of the
  tracked list alone.
\<close>

theorem consider_tracked_sources_classifies:
  "length trackedSources \<le> UINT32_MAX \<Longrightarrow>
   consider_tracked_sources cs trackedSources =
     Some (map (\<lambda>g. (g, retention_of (gen ` set cs) (set trackedSources) g)) (sort trackedSources))"
  using tracked_loop_spec [of "[]" "sort trackedSources" 0 UINT32_MAX "map gen cs"]
  by (simp add: consider_tracked_sources_def)

theorem consider_tracked_sources_classifies_witness:
  "length [7, 2, 5, 4, 3 :: gen_t] \<le> UINT32_MAX \<and>
   consider_tracked_sources
     [\<lparr>gen = 5, terms = None, ap = None, maskedDocuments = []\<rparr>,
      \<lparr>gen = 3, terms = None, ap = None, maskedDocuments = []\<rparr>] [7, 2, 5, 4, 3]
   = Some [(2, RetainAll), (3, RetainDocumentIDsUpdates), (4, RetainAll),
           (5, RetainDocumentIDsUpdates), (7, RetainAll)]"
  using consider_tracked_sources_classifies [of "[7, 2, 5, 4, 3]"
    "[\<lparr>gen = 5, terms = None, ap = None, maskedDocuments = []\<rparr>,
      \<lparr>gen = 3, terms = None, ap = None, maskedDocuments = []\<rparr>]"]
  by (simp add: retention_of_def UINT32_MAX_def)

section \<open>Proofs: the head of merge\<close>

lemma build_tracked_Inl:
  "build_tracked i prev cs = Inl e \<Longrightarrow> e = RequireFailed"
  by (induction cs arbitrary: i prev)
     (auto split: if_splits sum.splits option.splits prod.splits)

lemma build_tracked_fails_iff:
  "build_tracked i prev cs = Inl RequireFailed \<longleftrightarrow>
   \<not> successively (\<lambda>a b. gen b < gen a) (case prev of None \<Rightarrow> cs | Some p \<Rightarrow> p # cs)"
proof (induction cs arbitrary: i prev)
  case Nil
  then show ?case by (simp split: option.splits)
next
  case (Cons c cs)
  have "build_tracked i prev (c # cs) = Inl RequireFailed \<longleftrightarrow>
        (case prev of None \<Rightarrow> False | Some p \<Rightarrow> \<not> gen c < gen p) \<or>
        build_tracked (Suc i) (Some c) cs = Inl RequireFailed"
    using build_tracked_Inl [of "Suc i" "Some c" cs]
    by (auto split: sum.splits option.splits prod.splits)
  then show ?case using Cons.IH [of "Suc i" "Some c"]
    by (auto split: option.splits)
qed

text \<open>
  C7. \<open>merge\<close> aborts on a \<open>require\<close> unless there are fewer than 65535 candidates
  and each candidate has a generation strictly below the one before it (so that the
  generations are unique); when both hold, the assertions at the head of \<open>merge\<close> do
  not fire and the head yields the working set.
\<close>

theorem merge_head_preconditions:
  "(merge_head (candidates col) = Inl RequireFailed \<longleftrightarrow>
      \<not> (length (candidates col) < 65535 \<and>
         successively (\<lambda>a b. gen b < gen a) (candidates col))) \<and>
   (merge_head (candidates col) = Inl RequireFailed \<longrightarrow>
      merge col sess out flushFreq = Inl RequireFailed) \<and>
   (length (candidates col) < 65535 \<and> successively (\<lambda>a b. gen b < gen a) (candidates col) \<longrightarrow>
      (\<exists>tracked. merge_head (candidates col) = Inr tracked) \<and> distinct (map gen (candidates col)))"
proof (intro conjI impI)
  show "merge_head (candidates col) = Inl RequireFailed \<longleftrightarrow>
      \<not> (length (candidates col) < 65535 \<and>
         successively (\<lambda>a b. gen b < gen a) (candidates col))"
    using build_tracked_fails_iff [of 0 None "candidates col"] by (simp add: merge_head_def)
next
  assume "merge_head (candidates col) = Inl RequireFailed"
  then show "merge col sess out flushFreq = Inl RequireFailed" by (simp add: merge_def)
next
  assume pre: "length (candidates col) < 65535 \<and>
    successively (\<lambda>a b. gen b < gen a) (candidates col)"
  then have "build_tracked 0 None (candidates col) \<noteq> Inl RequireFailed"
    using build_tracked_fails_iff [of 0 None "candidates col"] by simp
  then show "\<exists>tracked. merge_head (candidates col) = Inr tracked"
    using pre build_tracked_Inl [of 0 None "candidates col"]
    by (cases "build_tracked 0 None (candidates col)") (auto simp: merge_head_def)
  have "transp (\<lambda>a b. gen b < gen (a :: merge_candidate))"
    by (auto simp: transp_def)
  then have "sorted_wrt (\<lambda>a b. gen b < gen a) (candidates col)"
    using pre by (simp add: successively_conv_sorted_wrt)
  then have "sorted_wrt (\<lambda>a b. b < a) (map gen (candidates col))"
    by (simp add: sorted_wrt_map)
  then have "sorted_wrt (<) (rev (map gen (candidates col)))"
    by (simp add: sorted_wrt_rev)
  then have "distinct (rev (map gen (candidates col)))"
    using strict_sorted_iff by blast
  then show "distinct (map gen (candidates col))" by simp
qed


theorem merge_head_preconditions_witness:
  "(length [\<lparr>gen = 2, terms = None, ap = None, maskedDocuments = []\<rparr>,
            \<lparr>gen = 1, terms = None, ap = None, maskedDocuments = []\<rparr>] < 65535 \<and>
    successively (\<lambda>a b. gen b < gen a)
      [\<lparr>gen = 2, terms = None, ap = None, maskedDocuments = []\<rparr>,
       \<lparr>gen = 1, terms = None, ap = None, maskedDocuments = []\<rparr>] \<and>
    merge_head [\<lparr>gen = 2, terms = None, ap = None, maskedDocuments = []\<rparr>,
                \<lparr>gen = 1, terms = None, ap = None, maskedDocuments = []\<rparr>] \<noteq> Inl RequireFailed) \<and>
   (\<not> successively (\<lambda>a b. gen b < gen a)
      [\<lparr>gen = 1, terms = None, ap = None, maskedDocuments = []\<rparr>,
       \<lparr>gen = 1, terms = None, ap = None, maskedDocuments = []\<rparr>] \<and>
    merge \<lparr>candidates = [\<lparr>gen = 1, terms = None, ap = None, maskedDocuments = []\<rparr>,
                          \<lparr>gen = 1, terms = None, ap = None, maskedDocuments = []\<rparr>],
           cmap = [], call = []\<rparr>
      \<lparr>is_codec_identifier = ''G'', is_merge = (\<lambda>ps. []), is_bytes = length\<rparr>
      \<lparr>indexOut = [], sink = []\<rparr> 0 = Inl RequireFailed)"
  using merge_head_preconditions [of
      "\<lparr>candidates = [\<lparr>gen = 2, terms = None, ap = None, maskedDocuments = []\<rparr>,
                       \<lparr>gen = 1, terms = None, ap = None, maskedDocuments = []\<rparr>],
        cmap = [], call = []\<rparr>"]
    merge_head_preconditions [of
      "\<lparr>candidates = [\<lparr>gen = 1, terms = None, ap = None, maskedDocuments = []\<rparr>,
                       \<lparr>gen = 1, terms = None, ap = None, maskedDocuments = []\<rparr>],
        cmap = [], call = []\<rparr>"
      "\<lparr>is_codec_identifier = ''G'', is_merge = (\<lambda>ps. []), is_bytes = length\<rparr>"
      "\<lparr>indexOut = [], sink = []\<rparr>" 0]
  by simp

section \<open>Proofs: the flush frequency\<close>

lemma merge_loop_flushFreq:
  "merge_loop col sess flushFreq ta al out = merge_loop col sess 0 ta al out"
proof (induction col sess flushFreq ta al out rule: merge_loop.induct)
  case (1 col sess flushFreq ta al out)
  show ?case
    apply (subst merge_loop.simps)
    apply (subst (2) merge_loop.simps)
    apply (auto simp: Let_def split: sum.splits list.splits intro: "1.IH")
    done
qed

text \<open>
  C9. The argument \<open>flushFreq\<close> has no influence on what \<open>merge\<close> does: for any two
  values of it, zero or not, \<open>merge\<close> gives the same result on the same collection,
  session and output, the same entries of the sink among it.
\<close>

theorem merge_ignores_flushFreq:
  "merge col sess out flushFreq = merge col sess out flushFreq'"
proof -
  have "merge_loop col sess flushFreq ta al out' = merge_loop col sess flushFreq' ta al out'"
    for ta al out'
    using merge_loop_flushFreq [of col sess flushFreq ta al out']
      merge_loop_flushFreq [of col sess flushFreq' ta al out'] by simp
  then show ?thesis by (simp add: merge_def split: sum.split)
qed

section \<open>Proofs: commit and the registries\<close>



lemma commit_loop_map_length:
  "length (fst (commit_loop cs m al)) = length m + length cs"
  by (induction cs arbitrary: m al) auto






section \<open>Proofs: the working set\<close>




section \<open>Proofs: merge uses the collection through its registries only\<close>








section \<open>Proofs: candidates without an accessor\<close>







abbreviation (input) ex_doc :: "docid_t \<Rightarrow> document" where
  "ex_doc d \<equiv> \<lparr>doc_id = d, doc_hits = []\<rparr>"

abbreviation (input) ex_decoder :: "document \<Rightarrow> document list \<Rightarrow> decoder" where
  "ex_decoder d ds \<equiv> \<lparr>curDocument = d, pending = ds\<rparr>"




section \<open>Proofs: invariants of the outer loop\<close>

lemma merge_loop_invariant:
  assumes "merge_loop col sess flushFreq ta al out = Inr out'"
    and "Inv al out"
    and "\<And>ta al out out1 al1.
          Inv al out \<Longrightarrow> al \<noteq> [] \<Longrightarrow> \<not> list_ex (\<lambda>t. tc_terms t = []) al \<Longrightarrow>
          process_term col sess (select_terms ta al) al out = Inr out1 \<Longrightarrow>
          advance_terms (toAdvanceCnt (select_terms ta al)) (toAdvance (select_terms ta al)) al = Inr al1 \<Longrightarrow>
          Inv al1 out1"
  shows "Inv [] out'"
  using assms
proof (induction col sess flushFreq ta al out rule: merge_loop.induct)
  case (1 col sess flushFreq ta al out)
  let ?s = "select_terms ta al"
  from "1.prems"(1) have ne: "al \<noteq> []" "\<not> list_ex (\<lambda>t. tc_terms t = []) al"
    by (subst (asm) merge_loop.simps, auto)+
  from "1.prems"(1) ne obtain out1 where pt: "process_term col sess ?s al out = Inr out1"
    by (subst (asm) merge_loop.simps) (auto simp: Let_def split: sum.splits)
  from "1.prems"(1) ne pt obtain al1 where
    adv: "advance_terms (toAdvanceCnt ?s) (toAdvance ?s) al = Inr al1"
    by (subst (asm) merge_loop.simps) (auto simp: Let_def split: sum.splits)
  have inv1: "Inv al1 out1" by (rule "1.prems"(3) [OF "1.prems"(2) ne pt adv])
  show ?case
  proof (cases al1)
    case Nil
    then have "out' = out1" using "1.prems"(1) ne pt adv
      by (subst (asm) merge_loop.simps) (auto simp: Let_def)
    then show ?thesis using inv1 Nil by simp
  next
    case (Cons t ts)
    let ?out2 = "if flushFreq \<noteq> 0 \<and> flushFreq < indexOut_size sess out1 then out1 else out1"
    have rec: "merge_loop col sess flushFreq (toAdvance ?s) (t # ts) ?out2 = Inr out'"
      using "1.prems"(1) ne pt adv Cons
      by (subst (asm) merge_loop.simps) (auto simp: Let_def)
    have c: "\<not> (al = [] \<or> list_ex (\<lambda>t. tc_terms t = []) al)" using ne by simp
    have inv2: "Inv (t # ts) ?out2" using inv1 Cons by simp
    show ?thesis
      by (rule "1.IH" [OF c refl pt refl adv Cons rec inv2 "1.prems"(3)])
  qed
qed

section \<open>Proofs: the entries of the sink\<close>

definition appended_nonzero :: "merge_output \<Rightarrow> merge_output \<Rightarrow> bool" where
  "appended_nonzero out out' =
     (\<exists>new. sink out' = sink out @ new \<and> list_all (\<lambda>e. documents (snd e) \<noteq> 0) new)"

lemma appended_nonzero_refl: "appended_nonzero out out"
  by (simp add: appended_nonzero_def)

lemma appended_nonzero_trans:
  "appended_nonzero a b \<Longrightarrow> appended_nonzero b c \<Longrightarrow> appended_nonzero a c"
  by (auto simp: appended_nonzero_def)

lemma push_term_nonzero: "appended_nonzero out (push_term t (end_term out docs))"
  by (simp add: appended_nonzero_def push_term_def end_term_def)

lemma single_candidate_term_nonzero:
  "single_candidate_term col sess s al out = Inr out1 \<Longrightarrow> appended_nonzero out out1"
  using push_term_nonzero [of out]
  by (auto simp: single_candidate_term_def Let_def append_index_chunk_def appended_nonzero_refl
      split: sum.splits if_splits)
    (auto simp: appended_nonzero_def)

lemma fast_path_term_nonzero:
  "fast_path_term col sess s al out = Inr out1 \<Longrightarrow> appended_nonzero out out1"
  using push_term_nonzero [of out]
  by (auto simp: fast_path_term_def Let_def appended_nonzero_refl split: sum.splits if_splits)

lemma slow_path_term_nonzero:
  "slow_path_term col sess s al out = Inr out1 \<Longrightarrow> appended_nonzero out out1"
  using push_term_nonzero [of out]
  by (auto simp: slow_path_term_def Let_def appended_nonzero_refl split: sum.splits if_splits)

lemma process_term_nonzero:
  "process_term col sess s al out = Inr out1 \<Longrightarrow> appended_nonzero out out1"
  by (auto simp: process_term_def split: if_splits
      dest: single_candidate_term_nonzero fast_path_term_nonzero slow_path_term_nonzero)

lemma merge_loop_nonzero:
  assumes "merge_loop col sess flushFreq ta al out = Inr out'"
  shows "appended_nonzero out out'"
  by (rule merge_loop_invariant [where Inv = "\<lambda>al. appended_nonzero out", OF assms])
    (auto intro: appended_nonzero_refl appended_nonzero_trans dest: process_term_nonzero)

abbreviation (input) ex_session :: index_session where
  "ex_session \<equiv> \<lparr>is_codec_identifier = ''G'', is_merge = (\<lambda>ps. []), is_bytes = length\<rparr>"

abbreviation (input) ex_empty :: merge_output where
  "ex_empty \<equiv> \<lparr>indexOut = [], sink = []\<rparr>"

abbreviation (input) ex_two_terms :: merge_candidate where
  "ex_two_terms \<equiv>
     \<lparr>gen = 1,
      terms = Some [(''a'', \<lparr>documents = 0, chunk = 0\<rparr>), (''b'', \<lparr>documents = 1, chunk = 1\<rparr>)],
      ap = Some \<lparr>codec_identifier = ''L'', new_decoder = (\<lambda>tctx. ex_decoder (ex_doc 7) [])\<rparr>,
      maskedDocuments = []\<rparr>"

text \<open>
  C5. Every entry that \<open>merge\<close> appends to the sink has a non-zero number of
  documents: a term whose input context has no documents is skipped, and a term for
  which \<open>end_term\<close> reports no documents is dropped.
\<close>

theorem merge_appends_only_nonzero_documents:
  assumes "merge col sess out flushFreq = Inr out'"
  shows "(\<exists>new. sink out' = sink out @ new \<and> (\<forall>e\<in>set new. documents (snd e) \<noteq> 0)) \<and>
         (\<forall>s al out1. toAdvanceCnt s = 1 \<and> documents (snd (selected s)) = 0 \<and>
            process_term col sess s al out = Inr out1 \<longrightarrow> out1 = out) \<and>
         (\<forall>t out1 tctx. documents tctx = 0 \<longrightarrow> push_term t (out1, tctx) = out1)"
proof (intro conjI allI impI)
  have "appended_nonzero out out'"
  proof (cases "merge_head (candidates col)")
    case (Inl e)
    then show ?thesis using assms by (simp add: merge_def)
  next
    case (Inr tracked)
    then show ?thesis using assms
      by (auto simp: merge_def appended_nonzero_refl split: if_splits dest: merge_loop_nonzero)
  qed
  then show "\<exists>new. sink out' = sink out @ new \<and> (\<forall>e\<in>set new. documents (snd e) \<noteq> 0)"
    by (auto simp: appended_nonzero_def list_all_iff)
next
  fix s al out1
  assume "toAdvanceCnt s = 1 \<and> documents (snd (selected s)) = 0 \<and>
            process_term col sess s al out = Inr out1"
  then show "out1 = out"
    by (auto simp: process_term_def single_candidate_term_def Let_def split: sum.splits if_splits)
next
  fix t :: str8_t and out1 :: merge_output and tctx :: term_index_ctx
  assume "documents tctx = 0"
  then show "push_term t (out1, tctx) = out1" by (simp add: push_term_def)
qed

theorem merge_appends_only_nonzero_documents_witness:
  "merge (commit [ex_two_terms]) ex_session ex_empty 0 =
     Inr \<lparr>indexOut = [[ex_doc 7]], sink = [(''b'', \<lparr>documents = 1, chunk = 0\<rparr>)]\<rparr> \<and>
   (\<exists>new. [(''b'', \<lparr>documents = 1, chunk = 0\<rparr>)] = [] @ new \<and>
      list_all (\<lambda>e. documents (snd e) \<noteq> 0) new)"
proof -
  have m: "merge (commit [ex_two_terms]) ex_session ex_empty 0 =
     Inr \<lparr>indexOut = [[ex_doc 7]], sink = [(''b'', \<lparr>documents = 1, chunk = 0\<rparr>)]\<rparr>"
    by (simp add: merge_def merge_head_def commit_def sort_gen_desc_def Let_def merge_loop.simps
      select_terms_def process_term_def single_candidate_term_def read_slot_def
      scanner_registry_for_def registry_make_def registry_empty_def registry_test_def
      advance_terms.simps push_term_def end_term_def MaxDocIDValue_def)
  show ?thesis
  proof (intro conjI)
    show "merge (commit [ex_two_terms]) ex_session ex_empty 0 =
      Inr \<lparr>indexOut = [[ex_doc 7]], sink = [(''b'', \<lparr>documents = 1, chunk = 0\<rparr>)]\<rparr>"
      by (rule m)
    show "\<exists>new. [(''b'', \<lparr>documents = 1, chunk = 0\<rparr>)] = [] @ new \<and>
      list_all (\<lambda>e. documents (snd e) \<noteq> 0) new"
      using merge_appends_only_nonzero_documents [OF m, THEN conjunct1]
      by (simp add: list_all_iff)
  qed
qed

section \<open>The sentinel document id\<close>

abbreviation (input) ex_sentinel_newer :: merge_candidate where
  "ex_sentinel_newer \<equiv>
     \<lparr>gen = 5, terms = Some [(''x'', \<lparr>documents = 1, chunk = 0\<rparr>)],
      ap = Some \<lparr>codec_identifier = ''L'',
                 new_decoder = (\<lambda>tctx. ex_decoder (ex_doc MaxDocIDValue) [])\<rparr>,
      maskedDocuments = []\<rparr>"

abbreviation (input) ex_plain_older :: merge_candidate where
  "ex_plain_older \<equiv>
     \<lparr>gen = 3, terms = Some [(''x'', \<lparr>documents = 1, chunk = 0\<rparr>)],
      ap = Some \<lparr>codec_identifier = ''G'', new_decoder = (\<lambda>tctx. ex_decoder (ex_doc 7) [])\<rparr>,
      maskedDocuments = []\<rparr>"

lemmas merge_eval_simps =
  merge_def merge_head_def commit_def sort_gen_desc_def Let_def merge_loop.simps
  select_terms_def select_step_def terms_cmp_def process_term_def single_candidate_term_def
  fast_path_term_def slow_path_term_def read_slot_def
  scanner_registry_for_def registry_make_def registry_empty_def registry_test_def
  advance_terms.simps push_term_def end_term_def append_index_chunk_def dec_docs_def
  merge_decoders.simps lowest_select_def dec_next_def ud_nonempty_def upt_rec

text \<open>
  C8. A decoder that yields the sentinel document id aborts \<open>merge\<close> in the path of a
  single candidate, but not in the path of several candidates with mixed codecs, where the
  document is written to the index.
\<close>

theorem sentinel_only_checked_for_single_candidate:
  "merge (commit [ex_sentinel_newer]) ex_session ex_empty 0 = Inl RequireFailed \<and>
   merge (commit [ex_sentinel_newer, ex_plain_older]) ex_session ex_empty 0 =
     Inr \<lparr>indexOut = [[ex_doc 7, ex_doc MaxDocIDValue]],
          sink = [(''x'', \<lparr>documents = 2, chunk = 0\<rparr>)]\<rparr>"
proof
  show "merge (commit [ex_sentinel_newer]) ex_session ex_empty 0 = Inl RequireFailed"
    by (simp add: merge_eval_simps)
  have c: "commit [ex_sentinel_newer, ex_plain_older] =
      \<lparr>candidates = [ex_sentinel_newer, ex_plain_older],
       cmap = [(ex_sentinel_newer, 0), (ex_plain_older, 0)], call = []\<rparr>"
    by (simp add: commit_def sort_gen_desc_def Let_def ud_nonempty_def)
  show "merge (commit [ex_sentinel_newer, ex_plain_older]) ex_session ex_empty 0 =
     Inr \<lparr>indexOut = [[ex_doc 7, ex_doc MaxDocIDValue]],
          sink = [(''x'', \<lparr>documents = 2, chunk = 0\<rparr>)]\<rparr>"
    unfolding c by (simp add: merge_eval_simps MaxDocIDValue_def)
qed

section \<open>Many candidates at one term\<close>

text \<open>
  Candidate \<open>k\<close> of a collection whose candidates all hold the single term \<open>x\<close>, with
  one document, of id \<open>k\<close>; the codecs alternate and no candidate masks anything.
\<close>

definition tied_ap :: "nat \<Rightarrow> access_proxy" where
  "tied_ap k =
     \<lparr>codec_identifier = (if even k then ''G'' else ''L''),
      new_decoder = (\<lambda>tctx. \<lparr>curDocument = \<lparr>doc_id = of_nat k, doc_hits = []\<rparr>, pending = []\<rparr>)\<rparr>"

definition tied_candidate :: "nat \<Rightarrow> merge_candidate" where
  "tied_candidate k =
     \<lparr>gen = of_nat (1000 - k), terms = Some [(''x'', \<lparr>documents = 1, chunk = 0\<rparr>)],
      ap = Some (tied_ap k), maskedDocuments = []\<rparr>"

definition tied_tracked :: "nat \<Rightarrow> tracked_candidate" where
  "tied_tracked k =
     \<lparr>idx = k, tc_terms = [(''x'', \<lparr>documents = 1, chunk = 0\<rparr>)], tc_ap = tied_ap k\<rparr>"

lemma gen_tied_less:
  assumes "k < n" "n \<le> 1000"
  shows "gen (tied_candidate n) < gen (tied_candidate k)"
proof -
  have "unat (of_nat (1000 - n) :: 64 word) = 1000 - n"
    by (simp add: unat_of_nat)
  moreover have "unat (of_nat (1000 - k) :: 64 word) = 1000 - k"
    by (simp add: unat_of_nat)
  ultimately show ?thesis using assms
    by (simp add: tied_candidate_def word_less_nat_alt)
qed

lemma sort_gen_desc_tied:
  "n \<le> 1000 \<Longrightarrow> sort_gen_desc (map tied_candidate [0..<n]) = map tied_candidate [0..<n]"
proof -
  assume n: "n \<le> 1000"
  let ?xs = "map tied_candidate [0..<n]"
  have "sorted_wrt (\<lambda>a b. gen b \<le> gen a) ?xs"
    using n by (auto simp: sorted_wrt_iff_nth_less intro!: less_imp_le gen_tied_less)
  then have "sorted (map gen (rev ?xs))"
    by (simp add: sorted_map sorted_wrt_rev)
  then have "sort_key gen (rev ?xs) = rev ?xs" by (rule sort_key_id_if_sorted)
  then show ?thesis by (simp add: sort_gen_desc_def)
qed

lemma commit_loop_no_masks:
  "\<forall>c\<in>set cs. maskedDocuments c = [] \<Longrightarrow>
   commit_loop cs m al = (m @ map (\<lambda>c. (c, length al)) cs, al)"
  by (induction cs arbitrary: m) (simp_all add: ud_nonempty_def)

lemma commit_tied:
  "n \<le> 1000 \<Longrightarrow>
   commit (map tied_candidate [0..<n]) =
     \<lparr>candidates = map tied_candidate [0..<n],
      cmap = map (\<lambda>c. (c, 0)) (map tied_candidate [0..<n]), call = []\<rparr>"
proof -
  assume n: "n \<le> 1000"
  have "commit_loop (map tied_candidate [0..<n]) [] [] =
          (map (\<lambda>c. (c, 0)) (map tied_candidate [0..<n]), [])"
    using commit_loop_no_masks [of "map tied_candidate [0..<n]" "[]" "[]"]
    by (simp add: tied_candidate_def)
  then show ?thesis by (simp add: commit_def sort_gen_desc_tied [OF n])
qed

lemma scanner_registry_for_tied:
  "n \<le> 1000 \<Longrightarrow> scanner_registry_for (commit (map tied_candidate [0..<n])) i = []"
  by (simp add: commit_tied scanner_registry_for_def registry_make_def)

lemma build_tracked_tied:
  "n \<le> 1000 \<Longrightarrow> i \<le> n \<Longrightarrow> (prev = None \<and> i = 0 \<or> (0 < i \<and> prev = Some (tied_candidate (i - 1)))) \<Longrightarrow>
   build_tracked i prev (map tied_candidate [i..<n]) = Inr (map tied_tracked [i..<n])"
proof (induction "n - i" arbitrary: i prev)
  case 0
  then show ?case by simp
next
  case (Suc d)
  then have lt: "i < n" by simp
  then have up: "[i..<n] = i # [Suc i..<n]" by (simp add: upt_rec)
  have ok: "\<not> (case prev of None \<Rightarrow> False | Some p \<Rightarrow> \<not> gen (tied_candidate i) < gen p)"
    using Suc.prems lt gen_tied_less [of "i - 1" i] by (auto split: option.splits)
  have IH: "build_tracked (Suc i) (Some (tied_candidate i)) (map tied_candidate [Suc i..<n]) =
              Inr (map tied_tracked [Suc i..<n])"
    using Suc.hyps(1) [of "Suc i" "Some (tied_candidate i)"] Suc.hyps(2) Suc.prems lt by simp
  have t: "terms (tied_candidate i) = Some [(''x'', \<lparr>documents = 1, chunk = 0\<rparr>)]"
    "ap (tied_candidate i) = Some (tied_ap i)"
    by (simp_all add: tied_candidate_def)
  show ?case using ok IH t by (simp add: up tied_tracked_def)
qed

lemma merge_head_tied:
  "n \<le> 1000 \<Longrightarrow> merge_head (map tied_candidate [0..<n]) = Inr (map tied_tracked [0..<n])"
  using build_tracked_tied [of n 0 None] by (simp add: merge_head_def)

lemma terms_cmp_same: "terms_cmp a a = 0"
  by (simp add: terms_cmp_def)

lemma select_step_tied:
  assumes "fst (hd (tc_terms t)) = fst (selected s)"
  shows "toAdvanceCnt (select_step s i t) = toAdvanceCnt s + 1"
    and "toAdvance (select_step s i t) = (toAdvance s)[unat (toAdvanceCnt s) := Some i]"
    and "selected (select_step s i t) = selected s"
    and "codec (select_step s i t) = codec s"
    and "sameCODEC (select_step s i t) = (sameCODEC s \<and> codec_identifier (tc_ap t) = codec s)"
  using assms by (auto simp: select_step_def Let_def terms_cmp_same)

lemma unat_of_nat_u8: "i < 256 \<Longrightarrow> unat (of_nat i :: 8 word) = i"
  by (simp add: unat_of_nat)

lemma select_loop_tied:
  assumes "\<forall>t\<in>set ts. fst (hd (tc_terms t)) = fst (selected s)"
    and "toAdvanceCnt s = of_nat i" and "i + length ts \<le> 256"
    and "toAdvance s = pre @ rest" and "length pre = i" and "length ts \<le> length rest"
  shows "toAdvanceCnt (select_loop s i ts) = of_nat (i + length ts) \<and>
         toAdvance (select_loop s i ts) = pre @ map Some [i..<i + length ts] @ drop (length ts) rest \<and>
         selected (select_loop s i ts) = selected s \<and>
         codec (select_loop s i ts) = codec s \<and>
         sameCODEC (select_loop s i ts) =
           (sameCODEC s \<and> (\<forall>t\<in>set ts. codec_identifier (tc_ap t) = codec s))"
  using assms
proof (induction ts arbitrary: s i pre rest)
  case Nil
  then show ?case by simp
next
  case (Cons t ts)
  let ?s = "select_step s i t"
  have tied: "fst (hd (tc_terms t)) = fst (selected s)" using Cons.prems(1) by simp
  note st = select_step_tied [OF tied, of i]
  have i: "i < 256" using Cons.prems(3) by simp
  obtain r rest' where rest: "rest = r # rest'" using Cons.prems(6) by (cases rest) auto
  have "(pre @ r # rest')[length pre := Some i] = pre @ Some i # rest'"
    by (simp add: list_update_append)
  then have ta: "toAdvance ?s = (pre @ [Some i]) @ rest'"
    using st(2) Cons.prems(2,4,5) i rest by (simp add: unat_of_nat_u8)
  have cnt: "toAdvanceCnt ?s = of_nat (Suc i)" using st(1) Cons.prems(2) by simp
  have sel: "\<forall>t\<in>set ts. fst (hd (tc_terms t)) = fst (selected ?s)"
    using Cons.prems(1) st(3) by simp
  define U where "U = [Suc i..<Suc i + length ts]"
  have IH: "toAdvanceCnt (select_loop ?s (Suc i) ts) = of_nat (Suc i + length ts) \<and>
         toAdvance (select_loop ?s (Suc i) ts) =
           (pre @ [Some i]) @ map Some U @ drop (length ts) rest' \<and>
         selected (select_loop ?s (Suc i) ts) = selected ?s \<and>
         codec (select_loop ?s (Suc i) ts) = codec ?s \<and>
         sameCODEC (select_loop ?s (Suc i) ts) =
           (sameCODEC ?s \<and> (\<forall>t\<in>set ts. codec_identifier (tc_ap t) = codec ?s))"
    unfolding U_def by (rule Cons.IH [OF sel cnt _ ta]) (use Cons.prems rest in auto)
  have up: "[i..<i + length (t # ts)] = i # U"
    unfolding U_def by (simp add: upt_rec)
  have e: "pre @ map Some [i..<i + length (t # ts)] @ drop (length (t # ts)) rest =
           (pre @ [Some i]) @ map Some U @ drop (length ts) rest'"
    unfolding up rest by simp
  have c: "(of_nat (i + length (t # ts)) :: 8 word) = of_nat (Suc i + length ts)" by simp
  show ?case unfolding e c using IH st(3,4,5) by auto
qed

lemma select_terms_tied:
  assumes "al \<noteq> []" and "\<forall>t\<in>set al. fst (hd (tc_terms t)) = fst (hd (tc_terms (hd al)))"
    and "length al \<le> 256" and "length al \<le> length ta"
  shows "toAdvanceCnt (select_terms ta al) = of_nat (length al) \<and>
         toAdvance (select_terms ta al) = map Some [0..<length al] @ drop (length al) ta \<and>
         selected (select_terms ta al) = hd (tc_terms (hd al)) \<and>
         codec (select_terms ta al) = codec_identifier (tc_ap (hd al)) \<and>
         sameCODEC (select_terms ta al) =
           (\<forall>t\<in>set (tl al). codec_identifier (tc_ap t) = codec_identifier (tc_ap (hd al)))"
proof -
  obtain t ts where al: "al = t # ts" using assms(1) by (cases al) auto
  obtain r rest where ta: "ta = r # rest" using assms(1,4) by (cases ta) auto
  let ?s = "\<lparr>toAdvanceCnt = 1, toAdvance = ta[0 := Some 0], selected = hd (tc_terms (hd al)),
        codec = codec_identifier (tc_ap (hd al)), sameCODEC = True\<rparr>"
  define U where "U = [1..<1 + length ts]"
  have "toAdvanceCnt (select_loop ?s 1 ts) = of_nat (1 + length ts) \<and>
         toAdvance (select_loop ?s 1 ts) = [Some 0] @ map Some U @ drop (length ts) rest \<and>
         selected (select_loop ?s 1 ts) = selected ?s \<and>
         codec (select_loop ?s 1 ts) = codec ?s \<and>
         sameCODEC (select_loop ?s 1 ts) =
           (sameCODEC ?s \<and> (\<forall>t\<in>set ts. codec_identifier (tc_ap t) = codec ?s))"
    unfolding U_def by (rule select_loop_tied) (use assms al ta in auto)
  moreover have "[0..<length al] = 0 # U" unfolding U_def using al by (simp add: upt_rec)
  ultimately show ?thesis using al ta by (simp add: select_terms_def)
qed

lemma process_term_zero_count:
  "toAdvanceCnt s = 0 \<Longrightarrow> process_term col sess s al out = Inr out"
  by (simp add: process_term_def fast_path_term_def slow_path_term_def)

lemma advance_terms_all_done:
  assumes "0 < k" and "k \<le> 256" and "length al = k"
    and "\<forall>t\<in>set al. tl (tc_terms t) = []"
    and "\<forall>j<k. j < length ta \<and> ta ! j = Some j"
  shows "advance_terms (of_nat k) ta al = Inr []"
  using assms
proof (induction k arbitrary: al)
  case 0
  then show ?case by simp
next
  case (Suc k)
  have cnt: "(of_nat (Suc k) :: 8 word) - 1 = of_nat k" by simp
  have u: "unat (of_nat k :: 8 word) = k" using Suc.prems(2) by (simp add: unat_of_nat_u8)
  have rs: "read_slot ta k (length al) = Inr k"
    using Suc.prems(3,5) by (simp add: read_slot_def)
  have tl: "tl (tc_terms (al ! k)) = []" using Suc.prems(3,4) by simp
  have al': "take k al @ drop (Suc k) al = take k al" using Suc.prems(3) by simp
  show ?case
  proof (cases "k = 0")
    case True
    then show ?thesis using rs tl Suc.prems(3)
      by (subst advance_terms.simps) (simp add: cnt Let_def)
  next
    case False
    then have nz: "(of_nat k :: 8 word) \<noteq> 0"
      using u by (metis unat_0)
    have ne: "take k al \<noteq> []" using False Suc.prems(3) by auto
    have IH: "advance_terms (of_nat k) ta (take k al) = Inr []"
      by (rule Suc.IH) (use False Suc.prems in \<open>auto dest: in_set_takeD\<close>)
    show ?thesis using rs tl al' nz ne IH
      by (subst advance_terms.simps) (simp add: cnt u Let_def)
  qed
qed

lemma tied_tracked_simps:
  "tc_terms (tied_tracked k) = [(''x'', \<lparr>documents = 1, chunk = 0\<rparr>)]"
  "tc_ap (tied_tracked k) = tied_ap k" "idx (tied_tracked k) = k"
  by (simp_all add: tied_tracked_def)

lemma hd_map_tied: "0 < n \<Longrightarrow> hd (map tied_tracked [0..<n]) = tied_tracked 0"
  by (simp add: hd_map upt_rec)

lemma merge_loop_256_tied:
  assumes "256 \<le> length ta"
  shows "merge_loop col sess flushFreq ta (map tied_tracked [0..<256]) out = Inr out"
proof -
  let ?al = "map tied_tracked [0..<256]"
  let ?s = "select_terms ta ?al"
  have ne: "?al \<noteq> []" by simp
  have full: "\<not> list_ex (\<lambda>t. tc_terms t = []) ?al"
    by (simp add: list_ex_iff tied_tracked_simps)
  have "toAdvanceCnt ?s = of_nat (length ?al) \<and>
        toAdvance ?s = map Some [0..<length ?al] @ drop (length ?al) ta"
    using select_terms_tied [of ?al ta] ne assms
    by (simp add: tied_tracked_simps hd_map_tied del: upt_Suc)
  then have cnt: "toAdvanceCnt ?s = 0" and ta: "toAdvance ?s = map Some [0..<256] @ drop 256 ta"
    by simp_all
  have pt: "process_term col sess ?s ?al out = Inr out"
    using cnt by (rule process_term_zero_count)
  have "advance_terms (of_nat 256) (toAdvance ?s) ?al = Inr []"
    by (rule advance_terms_all_done) (simp_all add: ta tied_tracked_simps nth_append)
  moreover have "(of_nat 256 :: 8 word) = 0" by simp
  ultimately have adv: "advance_terms (toAdvanceCnt ?s) (toAdvance ?s) ?al = Inr []"
    using cnt by (simp only:)
  show ?thesis
    by (subst merge_loop.simps) (simp add: ne full pt adv Let_def del: upt_Suc)
qed

text \<open>
  C10. With 256 candidates of mixed codecs at one term, each with a document for it, the
  selection counter has wrapped to 0 at the end of the scan: no decoder is created, the
  \<open>require\<close> on the size of the inner array is not reached, and \<open>merge\<close> returns
  without having written the term.
\<close>

theorem merge_256_tied_candidates_no_abort:
  "merge (commit (map tied_candidate [0..<256])) sess out flushFreq = Inr out"
proof -
  have "merge_head (candidates (commit (map tied_candidate [0..<256]))) =
          Inr (map tied_tracked [0..<256])"
    by (simp add: commit_tied merge_head_tied del: upt_Suc)
  moreover have "map tied_tracked [0..<256] \<noteq> []" by simp
  ultimately show ?thesis
    by (simp add: merge_def merge_loop_256_tied del: upt_Suc)
qed

lemma select_loop_append:
  "select_loop s i (xs @ ys) = select_loop (select_loop s i xs) (i + length xs) ys"
  by (induction xs arbitrary: s i) simp_all

lemma select_terms_snoc:
  "xs \<noteq> [] \<Longrightarrow> select_terms ta (xs @ [t]) = select_step (select_terms ta xs) (length xs) t"
  by (cases xs) (simp_all add: select_terms_def select_loop_append)

lemma select_terms_257_tied:
  defines "s \<equiv> select_terms (replicate 257 None) (map tied_tracked [0..<257])"
  shows "toAdvanceCnt s = 1" and "toAdvance s = Some 256 # map Some [1..<256] @ [None]"
    and "selected s = (''x'', \<lparr>documents = 1, chunk = 0\<rparr>)" and "\<not> sameCODEC s"
proof -
  let ?xs = "map tied_tracked [0..<256]"
  let ?s0 = "select_terms (replicate 257 None) ?xs"
  have ne: "?xs \<noteq> []" by simp
  have split: "map tied_tracked [0..<257] = ?xs @ [tied_tracked 256]"
  proof -
    have "[0..<257] = [0..<256] @ [256]" using upt_Suc_append [of 0 256] by simp
    then show ?thesis by (simp only: map_append list.map)
  qed
  have s: "s = select_step ?s0 256 (tied_tracked 256)"
    unfolding s_def split using select_terms_snoc [OF ne] by simp
  have one: "tied_tracked 1 \<in> set (tl ?xs)"
  proof -
    have "[0..<256] = 0 # [Suc 0..<256]" by (rule upt_conv_Cons) simp
    moreover have "[Suc 0..<256] = Suc 0 # [Suc (Suc 0)..<256]" by (rule upt_conv_Cons) simp
    ultimately have "[0..<256] = 0 # 1 # [2..<256]" by (simp add: numeral_2_eq_2)
    then show ?thesis by (simp only: list.map list.sel list.set insertI1)
  qed
  have s0: "toAdvanceCnt ?s0 = of_nat (length ?xs) \<and>
        toAdvance ?s0 = map Some [0..<length ?xs] @ drop (length ?xs) (replicate 257 None) \<and>
        selected ?s0 = hd (tc_terms (hd ?xs)) \<and>
        codec ?s0 = codec_identifier (tc_ap (hd ?xs)) \<and>
        sameCODEC ?s0 =
           (\<forall>t\<in>set (tl ?xs). codec_identifier (tc_ap t) = codec_identifier (tc_ap (hd ?xs)))"
    by (rule select_terms_tied) (simp_all add: ne tied_tracked_simps hd_map_tied del: upt_Suc)
  then have cnt0: "toAdvanceCnt ?s0 = 0"
    and ta0: "toAdvance ?s0 = map Some [0..<256] @ [None]"
    and sel0: "selected ?s0 = (''x'', \<lparr>documents = 1, chunk = 0\<rparr>)"
    by (simp_all add: hd_map_tied tied_tracked_simps del: upt_Suc)
  have "codec_identifier (tc_ap (tied_tracked 1)) \<noteq> codec_identifier (tc_ap (hd ?xs))"
    by (simp add: hd_map_tied tied_tracked_simps tied_ap_def del: upt_Suc)
  then have same0: "\<not> sameCODEC ?s0" using s0 one by blast
  have tied: "fst (hd (tc_terms (tied_tracked 256))) = fst (selected ?s0)"
    by (simp add: sel0 tied_tracked_simps)
  note st = select_step_tied [OF tied, of 256]
  show "toAdvanceCnt s = 1" using st(1) cnt0 by (simp add: s)
  have "[0..<256] = 0 # [1..<256]" using upt_conv_Cons [of 0 256] by simp
  then have "(map Some [0..<256] @ [None])[0 := Some 256] = Some 256 # map Some [1..<256] @ [None]"
    by (simp only: list.map append_Cons list_update_code)
  then show "toAdvance s = Some 256 # map Some [1..<256] @ [None]"
    using st(2) cnt0 ta0 by (simp add: s del: upt_Suc)
  show "selected s = (''x'', \<lparr>documents = 1, chunk = 0\<rparr>)" using st(3) sel0 by (simp add: s)
  show "\<not> sameCODEC s" using st(5) same0 by (simp add: s)
qed

lemma tied_257_split: "map tied_tracked [0..<257] = map tied_tracked [0..<256] @ [tied_tracked 256]"
proof -
  have "[0..<257] = [0..<256] @ [256]" using upt_Suc_append [of 0 256] by simp
  then show ?thesis by (simp only: map_append list.map)
qed

lemma read_slot_first: "i < n \<Longrightarrow> read_slot (Some i # rest) 0 n = Inr i"
  by (simp add: read_slot_def)

lemma advance_terms_257_tied:
  "advance_terms 1 (Some 256 # map Some [1..<256] @ [None]) (map tied_tracked [0..<257]) =
     Inr (map tied_tracked [0..<256])"
proof -
  let ?al = "map tied_tracked [0..<257]"
  have "?al ! 256 = tied_tracked 256" by (simp add: tied_257_split nth_append)
  then have tl: "tl (tc_terms (?al ! 256)) = []" by (simp add: tied_tracked_simps)
  have rest: "take 256 ?al @ drop (Suc 256) ?al = map tied_tracked [0..<256]"
    by (simp add: tied_257_split)
  show ?thesis
    by (subst advance_terms.simps)
      (simp add: read_slot_first tied_tracked_simps take_map Let_def del: upt_Suc)
qed

text \<open>
  C3. With 257 candidates at one term the first iteration of the outer loop, the
  selection counter having wrapped, processes and advances the candidate of index 256
  alone (with the term context that was selected from candidate 0); the 256 others stay
  at the term and are advanced by the next iteration, which writes nothing. Of the 257
  documents of the term, \<open>merge\<close> writes the one of candidate 256.
\<close>

theorem merge_257_tied_candidates_advances_one:
  "list_all (\<lambda>t. fst (hd (tc_terms t)) = ''x'') (map tied_tracked [0..<257]) \<and>
   merge_head (candidates (commit (map tied_candidate [0..<257]))) =
     Inr (map tied_tracked [0..<257]) \<and>
   toAdvanceCnt (select_terms (replicate 257 None) (map tied_tracked [0..<257])) = 1 \<and>
   read_slot (toAdvance (select_terms (replicate 257 None) (map tied_tracked [0..<257]))) 0 257
     = Inr 256 \<and>
   advance_terms (toAdvanceCnt (select_terms (replicate 257 None) (map tied_tracked [0..<257])))
     (toAdvance (select_terms (replicate 257 None) (map tied_tracked [0..<257])))
     (map tied_tracked [0..<257]) = Inr (map tied_tracked [0..<256]) \<and>
   merge (commit (map tied_candidate [0..<257])) ex_session ex_empty 0 =
     Inr \<lparr>indexOut = [[ex_doc 256]], sink = [(''x'', \<lparr>documents = 1, chunk = 0\<rparr>)]\<rparr>"
proof -
  let ?al = "map tied_tracked [0..<257]"
  let ?ta = "Some 256 # map Some [1..<256] @ [None]"
  let ?s = "select_terms (replicate 257 None) ?al"
  let ?col = "commit (map tied_candidate [0..<257])"
  note sel = select_terms_257_tied
  have all_x: "list_all (\<lambda>t. fst (hd (tc_terms t)) = ''x'') ?al"
    by (simp add: list_all_iff tied_tracked_simps del: upt_Suc)
  have head: "merge_head (candidates ?col) = Inr ?al"
    by (simp add: commit_tied merge_head_tied del: upt_Suc)
  have rs: "read_slot (toAdvance ?s) 0 257 = Inr 256"
    by (simp add: sel(2) read_slot_def del: upt_Suc)
  have adv: "advance_terms (toAdvanceCnt ?s) (toAdvance ?s) ?al = Inr (map tied_tracked [0..<256])"
    by (simp only: sel(1,2) advance_terms_257_tied)
  have nth: "?al ! 256 = tied_tracked 256" by (simp add: tied_257_split nth_append)
  have reg: "scanner_registry_for ?col 256 = []" by (rule scanner_registry_for_tied) simp
  have single: "single_candidate_term ?col ex_session ?s ?al ex_empty =
      Inr \<lparr>indexOut = [[ex_doc 256]], sink = [(''x'', \<lparr>documents = 1, chunk = 0\<rparr>)]\<rparr>"
    using rs
    by (simp add: single_candidate_term_def sel nth reg tied_tracked_simps tied_ap_def
        registry_empty_def registry_test_def MaxDocIDValue_def push_term_def end_term_def
        del: upt_Suc)
  have pt: "process_term ?col ex_session ?s ?al ex_empty =
      Inr \<lparr>indexOut = [[ex_doc 256]], sink = [(''x'', \<lparr>documents = 1, chunk = 0\<rparr>)]\<rparr>"
    by (simp add: process_term_def sel(1) single)
  have ne: "?al \<noteq> []" by simp
  have full: "\<not> list_ex (\<lambda>t. tc_terms t = []) ?al"
    by (simp add: list_ex_iff tied_tracked_simps del: upt_Suc)
  have ne': "map tied_tracked [0..<256] \<noteq> []" by simp
  have nxt: "merge_loop ?col ex_session 0 (toAdvance ?s) (map tied_tracked [0..<256])
      \<lparr>indexOut = [[ex_doc 256]], sink = [(''x'', \<lparr>documents = 1, chunk = 0\<rparr>)]\<rparr> =
      Inr \<lparr>indexOut = [[ex_doc 256]], sink = [(''x'', \<lparr>documents = 1, chunk = 0\<rparr>)]\<rparr>"
    by (rule merge_loop_256_tied) (simp add: sel(2))
  have loop: "merge_loop ?col ex_session 0 (replicate 257 None) ?al ex_empty =
      Inr \<lparr>indexOut = [[ex_doc 256]], sink = [(''x'', \<lparr>documents = 1, chunk = 0\<rparr>)]\<rparr>"
    apply (subst merge_loop.simps)
    apply (simp only: ne full pt adv Let_def simp_thms if_False sum.case)
    apply (cases "map tied_tracked [0..<256]")
    using ne' apply blast
    using nxt apply (simp del: upt_Suc)
    done
  have m: "merge ?col ex_session ex_empty 0 =
      Inr \<lparr>indexOut = [[ex_doc 256]], sink = [(''x'', \<lparr>documents = 1, chunk = 0\<rparr>)]\<rparr>"
    using head ne loop by (simp add: merge_def del: upt_Suc)
  show ?thesis using all_x head sel(1) rs adv m by (intro conjI)
qed

section \<open>Proofs: the inner loop over the decoders\<close>

text \<open>The id a decoder is positioned at, and the indices of the entries that satisfy \<open>P\<close>.\<close>

definition cur_id :: "decoder \<times> masked_documents_registry \<Rightarrow> docid_t" where
  "cur_id e = doc_id (curDocument (fst e))"

fun indices_where :: "('a \<Rightarrow> bool) \<Rightarrow> nat \<Rightarrow> 'a list \<Rightarrow> nat list" where
  "indices_where P i [] = []"
| "indices_where P i (x # xs) = (if P x then [i] else []) @ indices_where P (Suc i) xs"

lemma indices_where_append:
  "indices_where P i (xs @ ys) = indices_where P i xs @ indices_where P (i + length xs) ys"
  by (induction xs arbitrary: i) auto

lemma indices_where_none: "\<forall>x\<in>set xs. \<not> P x \<Longrightarrow> indices_where P i xs = []"
  by (induction xs arbitrary: i) auto

lemma set_indices_where:
  "set (indices_where P i xs) = {i + k | k. k < length xs \<and> P (xs ! k)}"
proof (induction xs arbitrary: i)
  case Nil
  then show ?case by simp
next
  case (Cons x xs)
  have "{i + k | k. k < length (x # xs) \<and> P ((x # xs) ! k)} =
        (if P x then {i} else {}) \<union> {Suc i + k | k. k < length xs \<and> P (xs ! k)}"
    (is "?L = ?R")
  proof (intro set_eqI iffI)
    fix j assume "j \<in> ?L"
    then obtain k where k: "j = i + k" "k < length (x # xs)" "P ((x # xs) ! k)" by blast
    show "j \<in> ?R"
    proof (cases k)
      case 0
      then show ?thesis using k by simp
    next
      case (Suc k')
      then have "j = Suc i + k' \<and> k' < length xs \<and> P (xs ! k')" using k by simp
      then show ?thesis by blast
    qed
  next
    fix j assume "j \<in> ?R"
    then consider "P x" "j = i" | k where "j = Suc i + k" "k < length xs" "P (xs ! k)"
      by (auto split: if_splits)
    then show "j \<in> ?L"
    proof cases
      case 1
      then have "j = i + 0 \<and> 0 < length (x # xs) \<and> P ((x # xs) ! 0)" by simp
      then show ?thesis by blast
    next
      case 2
      then have "j = i + Suc k \<and> Suc k < length (x # xs) \<and> P ((x # xs) ! Suc k)" by simp
      then show ?thesis by blast
    qed
  qed
  then show ?case using Cons.IH [of "Suc i"] by auto
qed

lemma indices_where_ge: "j \<in> set (indices_where P i xs) \<Longrightarrow> i \<le> j \<and> j < i + length xs"
  by (auto simp: set_indices_where)

lemma sorted_indices_where: "sorted_wrt (<) (indices_where P i xs)"
proof (induction xs arbitrary: i)
  case Nil
  then show ?case by simp
next
  case (Cons x xs)
  have "\<forall>j\<in>set (indices_where P (Suc i) xs). i < j"
    using indices_where_ge [of _ P "Suc i" xs] by fastforce
  then show ?case using Cons.IH [of "Suc i"] by auto
qed

lemma hd_indices_where:
  "indices_where P i xs \<noteq> [] \<Longrightarrow>
   \<exists>pre e post. xs = pre @ e # post \<and> P e \<and> (\<forall>x\<in>set pre. \<not> P x) \<and>
     hd (indices_where P i xs) = i + length pre"
proof (induction xs arbitrary: i)
  case Nil
  then show ?case by simp
next
  case (Cons x xs)
  show ?case
  proof (cases "P x")
    case True
    then have "x # xs = [] @ x # xs \<and> P x \<and> (\<forall>y\<in>set []. \<not> P y) \<and>
      hd (indices_where P i (x # xs)) = i + length ([] :: 'a list)" by simp
    then show ?thesis by blast
  next
    case False
    then have "indices_where P (Suc i) xs \<noteq> []" using Cons.prems by simp
    from Cons.IH [OF this] obtain pre e post where
      "xs = pre @ e # post" "P e" "\<forall>y\<in>set pre. \<not> P y"
      "hd (indices_where P (Suc i) xs) = Suc i + length pre" by blast
    then have "x # xs = (x # pre) @ e # post \<and> P e \<and> (\<forall>y\<in>set (x # pre). \<not> P y) \<and>
      hd (indices_where P i (x # xs)) = i + length (x # pre)" using False by simp
    then show ?thesis by blast
  qed
qed

text \<open>The selection of the inner loop finds the least id and every decoder at it.\<close>

lemma lowest_loop_spec:
  assumes "pre \<noteq> []"
  shows "lowest_loop (Min (cur_id ` set pre),
                      indices_where (\<lambda>e. cur_id e = Min (cur_id ` set pre)) 0 pre) (length pre) ds =
         (Min (cur_id ` set (pre @ ds)),
          indices_where (\<lambda>e. cur_id e = Min (cur_id ` set (pre @ ds))) 0 (pre @ ds))"
  using assms
proof (induction ds arbitrary: pre)
  case Nil
  then show ?case by simp
next
  case (Cons d ds)
  define l where "l = Min (cur_id ` set pre)"
  define l' where "l' = Min (cur_id ` set (pre @ [d]))"
  define A where "A = indices_where (\<lambda>e. cur_id e = l) 0 pre"
  define n where "n = length pre"
  have fin: "finite (cur_id ` set pre)" "cur_id ` set pre \<noteq> {}" using Cons.prems by auto
  have l': "l' = min (cur_id d) l" using fin by (simp add: l'_def l_def)
  have ge: "\<forall>x\<in>set pre. l \<le> cur_id x" using fin by (simp add: l_def)
  have unfold: "lowest_loop (l, A) n (d # ds) =
      (if cur_id d < l then lowest_loop (cur_id d, [n]) (Suc n) ds
       else if cur_id d = l then lowest_loop (l, A @ [n]) (Suc n) ds
       else lowest_loop (l, A) (Suc n) ds)"
    by (simp add: Let_def cur_id_def)
  have idx: "indices_where (\<lambda>e. cur_id e = l') 0 (pre @ [d]) =
      indices_where (\<lambda>e. cur_id e = l') 0 pre @ (if cur_id d = l' then [n] else [])"
    by (simp add: indices_where_append n_def)
  have step: "lowest_loop (l, A) n (d # ds) =
        lowest_loop (l', indices_where (\<lambda>e. cur_id e = l') 0 (pre @ [d])) (Suc n) ds"
  proof (cases "cur_id d < l")
    case True
    then have e: "l' = cur_id d" using l' by simp
    have "indices_where (\<lambda>e. cur_id e = cur_id d) 0 pre = []"
    proof (rule indices_where_none, intro ballI notI)
      fix x assume "x \<in> set pre" "cur_id x = cur_id d"
      then have "l \<le> cur_id d" using ge by metis
      then show False using True by simp
    qed
    then show ?thesis using True idx by (subst unfold) (simp add: e)
  next
    case False
    then have e: "l' = l" using l' by simp
    show ?thesis using False idx by (subst unfold) (simp add: e A_def)
  qed
  have "lowest_loop (l', indices_where (\<lambda>e. cur_id e = l') 0 (pre @ [d])) (length (pre @ [d])) ds =
         (Min (cur_id ` set ((pre @ [d]) @ ds)),
          indices_where (\<lambda>e. cur_id e = Min (cur_id ` set ((pre @ [d]) @ ds))) 0 ((pre @ [d]) @ ds))"
    unfolding l'_def by (rule Cons.IH) simp
  then show ?case using step unfolding l_def A_def n_def by simp
qed

lemma lowest_select_spec:
  assumes "ds \<noteq> []"
  shows "lowest_select ds =
           (Min (cur_id ` set ds), indices_where (\<lambda>e. cur_id e = Min (cur_id ` set ds)) 0 ds)"
proof -
  obtain d rest where ds: "ds = d # rest" using assms by (cases ds) auto
  have "lowest_loop (Min (cur_id ` set [d]),
                      indices_where (\<lambda>e. cur_id e = Min (cur_id ` set [d])) 0 [d]) (length [d]) rest =
         (Min (cur_id ` set ([d] @ rest)),
          indices_where (\<lambda>e. cur_id e = Min (cur_id ` set ([d] @ rest))) 0 ([d] @ rest))"
    by (rule lowest_loop_spec) simp
  then show ?thesis by (simp add: lowest_select_def ds cur_id_def)
qed

text \<open>
  The effect of \<open>advance_decoders\<close> told without indices: every decoder that satisfies
  \<open>P\<close> moves to its next document, or is dropped when it has none.
\<close>

definition next_entry ::
  "decoder \<times> masked_documents_registry \<Rightarrow> (decoder \<times> masked_documents_registry) list" where
  "next_entry e = (case dec_next (fst e) of None \<Rightarrow> [] | Some d' \<Rightarrow> [(d', snd e)])"

fun advance_in ::
  "nat set \<Rightarrow> nat \<Rightarrow> (decoder \<times> masked_documents_registry) list
     \<Rightarrow> (decoder \<times> masked_documents_registry) list" where
  "advance_in S i [] = []"
| "advance_in S i (e # es) = (if i \<in> S then next_entry e else [e]) @ advance_in S (Suc i) es"

definition advance_all ::
  "docid_t \<Rightarrow> (decoder \<times> masked_documents_registry) list
     \<Rightarrow> (decoder \<times> masked_documents_registry) list" where
  "advance_all m ds = concat (map (\<lambda>e. if cur_id e = m then next_entry e else [e]) ds)"

lemma advance_in_append:
  "advance_in S i (xs @ ys) = advance_in S i xs @ advance_in S (i + length xs) ys"
  by (induction xs arbitrary: i) auto

lemma advance_in_none: "\<forall>j\<ge>i. j \<notin> S \<Longrightarrow> advance_in S i xs = xs"
  by (induction xs arbitrary: i) auto

lemma advance_in_cong:
  "\<forall>j. i \<le> j \<and> j < i + length xs \<longrightarrow> (j \<in> S) = (j \<in> S') \<Longrightarrow>
   advance_in S i xs = advance_in S' i xs"
proof (induction xs arbitrary: i)
  case Nil
  then show ?case by simp
next
  case (Cons x xs)
  have "advance_in S (Suc i) xs = advance_in S' (Suc i) xs"
    by (rule Cons.IH) (use Cons.prems in auto)
  moreover have "(i \<in> S) = (i \<in> S')" using Cons.prems by simp
  ultimately show ?case by simp
qed

lemma advance_in_where:
  "\<forall>k<length xs. (i + k \<in> S) = P (xs ! k) \<Longrightarrow>
   advance_in S i xs = concat (map (\<lambda>e. if P e then next_entry e else [e]) xs)"
proof (induction xs arbitrary: i)
  case Nil
  then show ?case by simp
next
  case (Cons x xs)
  have "\<forall>k<length xs. (Suc i + k \<in> S) = P (xs ! k)"
  proof (intro allI impI)
    fix k assume "k < length xs"
    then show "(Suc i + k \<in> S) = P (xs ! k)" using Cons.prems [rule_format, of "Suc k"] by simp
  qed
  then have "advance_in S (Suc i) xs = concat (map (\<lambda>e. if P e then next_entry e else [e]) xs)"
    by (rule Cons.IH)
  moreover have "(i \<in> S) = P x" using Cons.prems [rule_format, of 0] by simp
  ultimately show ?case by simp
qed

lemma advance_decoders_step:
  assumes "i < length ds"
  shows "advance_decoders (i # rest) ds =
           (let ds' = take i ds @ next_entry (ds ! i) @ drop (Suc i) ds
            in if ds' = [] then Inr [] else advance_decoders rest ds')"
proof (cases "dec_next (fst (ds ! i))")
  case None
  then show ?thesis using assms by (simp add: next_entry_def Let_def)
next
  case (Some d')
  have "ds[i := (d', snd (ds ! i))] = take i ds @ (d', snd (ds ! i)) # drop (Suc i) ds"
    using assms by (simp add: upd_conv_take_nth_drop)
  then show ?thesis using assms Some by (simp add: next_entry_def Let_def)
qed

lemma advance_decoders_spec:
  assumes "sorted_wrt (>) is" and "\<forall>i\<in>set is. i < length ds"
  shows "advance_decoders is ds = Inr (advance_in (set is) 0 ds)"
  using assms
proof (induction "is" arbitrary: ds)
  case Nil
  then show ?case by (simp add: advance_in_none)
next
  case (Cons i rest)
  have i: "i < length ds" using Cons.prems(2) by simp
  have below: "\<forall>j\<in>set rest. j < i" using Cons.prems(1) by auto
  define T where "T = take i ds"
  define D where "D = drop (Suc i) ds"
  define e where "e = ds ! i"
  let ?ds' = "T @ next_entry e @ D"
  have split: "ds = T @ [e] @ D"
    using i by (simp add: id_take_nth_drop [symmetric] T_def D_def e_def)
  have len: "length T = i" using i by (simp add: T_def)
  have step: "advance_decoders (i # rest) ds =
      (if ?ds' = [] then Inr [] else advance_decoders rest ?ds')"
    using advance_decoders_step [OF i, of rest, unfolded Let_def]
    by (simp only: T_def D_def e_def)
  have front: "advance_in (set (i # rest)) 0 T = advance_in (set rest) 0 T"
    by (rule advance_in_cong) (use len in auto)
  have behind: "advance_in S (Suc i) D = D" if "S \<subseteq> set (i # rest)" for S
    by (rule advance_in_none) (use below that in fastforce)
  have behind': "advance_in (set rest) i xs = xs" for xs
    by (rule advance_in_none) (use below in fastforce)
  have "advance_in (set (i # rest)) 0 (T @ [e] @ D) =
      advance_in (set (i # rest)) 0 T @ advance_in (set (i # rest)) i ([e] @ D)"
    using advance_in_append [of "set (i # rest)" 0 T "[e] @ D"] len by simp
  also have "advance_in (set (i # rest)) i ([e] @ D) = next_entry e @ D"
    using behind [of "set (i # rest)"] by simp
  finally have target: "advance_in (set (i # rest)) 0 ds = advance_in (set rest) 0 T @ next_entry e @ D"
    using front split by simp
  show ?case
  proof (cases "?ds' = []")
    case True
    then have "advance_in (set rest) 0 T = []" by simp
    then have "advance_in (set (i # rest)) 0 ds = []" using True target by simp
    moreover have "advance_decoders (i # rest) ds = Inr []" using True step by metis
    ultimately show ?thesis by (simp only:)
  next
    case False
    have valid: "\<forall>j\<in>set rest. j < length ?ds'" using below len by fastforce
    have srt: "sorted_wrt (>) rest" using Cons.prems(1) by simp
    have "advance_in (set rest) 0 ?ds' =
        advance_in (set rest) 0 T @ advance_in (set rest) i (next_entry e @ D)"
      using advance_in_append [of "set rest" 0 T "next_entry e @ D"] len by simp
    then have "advance_in (set rest) 0 ?ds' = advance_in (set (i # rest)) 0 ds"
      using target behind' by simp
    moreover have "advance_decoders (i # rest) ds = advance_decoders rest ?ds'"
      using False step by metis
    ultimately show ?thesis using Cons.IH [OF srt valid] by (simp only:)
  qed
qed

lemma merge_decoders_unfold:
  assumes "ds \<noteq> []"
  shows "\<exists>pre e post. ds = pre @ e # post \<and> cur_id e = Min (cur_id ` set ds) \<and>
           (\<forall>x\<in>set pre. cur_id x \<noteq> Min (cur_id ` set ds)) \<and>
           merge_decoders ds enc =
             (if advance_all (Min (cur_id ` set ds)) ds = []
              then Inr (if \<not> registry_test (snd e) (cur_id e) then enc @ [curDocument (fst e)] else enc)
              else merge_decoders (advance_all (Min (cur_id ` set ds)) ds)
                     (if \<not> registry_test (snd e) (cur_id e) then enc @ [curDocument (fst e)] else enc))"
proof -
  define m where "m = Min (cur_id ` set ds)"
  define adv where "adv = indices_where (\<lambda>e. cur_id e = m) 0 ds"
  have sel: "lowest_select ds = (m, adv)"
    using lowest_select_spec [OF assms] by (simp add: m_def adv_def)
  have "m \<in> cur_id ` set ds" unfolding m_def using assms by (intro Min_in) auto
  then obtain x where "x \<in> set ds" "cur_id x = m" by auto
  then obtain k where "k < length ds" "cur_id (ds ! k) = m" by (metis in_set_conv_nth)
  then have "0 + k \<in> set adv" unfolding adv_def set_indices_where by blast
  then have ne: "adv \<noteq> []" by auto
  from hd_indices_where [of "\<lambda>e. cur_id e = m" 0 ds] ne
  obtain pre e post where split: "ds = pre @ e # post" "cur_id e = m"
    "\<forall>x\<in>set pre. cur_id x \<noteq> m" "hd adv = length pre"
    unfolding adv_def by auto
  have first: "ds ! hd adv = e" using split(1,4) by simp
  have srt: "sorted_wrt (>) (rev adv)"
    using sorted_indices_where [of "\<lambda>e. cur_id e = m" 0 ds]
    by (simp add: adv_def sorted_wrt_rev)
  have valid: "\<forall>i\<in>set (rev adv). i < length ds"
    using indices_where_ge [of _ "\<lambda>e. cur_id e = m" 0 ds] by (auto simp: adv_def)
  have "advance_in (set adv) 0 ds = advance_all m ds"
    unfolding advance_all_def
    by (rule advance_in_where) (auto simp: adv_def set_indices_where)
  then have adv: "advance_decoders (rev adv) ds = Inr (advance_all m ds)"
    using advance_decoders_spec [OF srt valid] by simp
  have doc: "\<lparr>doc_id = m, doc_hits = doc_hits (curDocument (fst e))\<rparr> = curDocument (fst e)"
    using split(2) by (simp add: cur_id_def)
  have "merge_decoders ds enc =
             (if advance_all m ds = []
              then Inr (if \<not> registry_test (snd e) m then enc @ [curDocument (fst e)] else enc)
              else merge_decoders (advance_all m ds)
                     (if \<not> registry_test (snd e) m then enc @ [curDocument (fst e)] else enc))"
    by (subst merge_decoders.simps)
      (simp add: sel first adv doc Let_def split: list.splits)
  then have "ds = pre @ e # post \<and> cur_id e = m \<and> (\<forall>x\<in>set pre. cur_id x \<noteq> m) \<and>
           merge_decoders ds enc =
             (if advance_all m ds = []
              then Inr (if \<not> registry_test (snd e) (cur_id e) then enc @ [curDocument (fst e)] else enc)
              else merge_decoders (advance_all m ds)
                     (if \<not> registry_test (snd e) (cur_id e) then enc @ [curDocument (fst e)] else enc))"
    using split(1,2,3) by (simp only: simp_thms)
  then show ?thesis unfolding m_def by (intro exI)
qed

text \<open>
  The documents a decoder still yields, and the documents that win: those of a decoder
  whose registry does not mask them and whose id no decoder before it in the list holds.
\<close>

definition docs_of :: "decoder \<times> masked_documents_registry \<Rightarrow> document list" where
  "docs_of e = dec_docs (fst e)"

definition ascending :: "decoder \<times> masked_documents_registry \<Rightarrow> bool" where
  "ascending e = sorted_wrt (<) (map doc_id (docs_of e))"

definition winners :: "(decoder \<times> masked_documents_registry) list \<Rightarrow> document set" where
  "winners ds =
     {d. \<exists>pre e post. ds = pre @ e # post \<and> d \<in> set (docs_of e) \<and>
           \<not> registry_test (snd e) (doc_id d) \<and>
           (\<forall>x\<in>set pre. doc_id d \<notin> doc_id ` set (docs_of x))}"

lemma docs_of_next_entry:
  "docs_of e = curDocument (fst e) # concat (map docs_of (next_entry e))"
  by (auto simp: docs_of_def dec_docs_def next_entry_def dec_next_def split: list.splits)

lemma next_entry_cases:
  "next_entry e = [] \<or> (\<exists>e'. next_entry e = [e'] \<and> snd e' = snd e)"
  by (auto simp: next_entry_def split: option.splits)

lemma ascending_lower:
  assumes "ascending e" and "d \<in> set (docs_of e)"
  shows "cur_id e \<le> doc_id d"
proof -
  have "docs_of e = curDocument (fst e) # pending (fst e)"
    by (simp add: docs_of_def dec_docs_def)
  then show ?thesis using assms by (auto simp: ascending_def cur_id_def)
qed

lemma ascending_current:
  assumes "ascending e" and "d \<in> set (docs_of e)" and "doc_id d = cur_id e"
  shows "d = curDocument (fst e)"
proof -
  have "docs_of e = curDocument (fst e) # pending (fst e)"
    by (simp add: docs_of_def dec_docs_def)
  then show ?thesis using assms by (auto simp: ascending_def cur_id_def)
qed

lemma current_in_docs: "curDocument (fst e) \<in> set (docs_of e)"
  by (simp add: docs_of_def dec_docs_def)

lemma next_entry_props:
  assumes "ascending e" and "e' \<in> set (next_entry e)"
  shows "snd e' = snd e" and "set (docs_of e') \<subseteq> set (docs_of e)" and "ascending e'"
    and "\<forall>d\<in>set (docs_of e'). cur_id e < doc_id d"
proof -
  from assms(2) next_entry_cases [of e] have ne: "next_entry e = [e']" and s: "snd e' = snd e"
    by auto
  then have d: "docs_of e = curDocument (fst e) # docs_of e'"
    using docs_of_next_entry [of e] by simp
  show "snd e' = snd e" by (rule s)
  show "set (docs_of e') \<subseteq> set (docs_of e)" using d by auto
  show "ascending e'" using assms(1) d by (simp add: ascending_def)
  show "\<forall>d\<in>set (docs_of e'). cur_id e < doc_id d"
    using assms(1) d by (auto simp: ascending_def cur_id_def)
qed

text \<open>One step, for one decoder: \<open>m\<close> is the least id any decoder is positioned at.\<close>

definition step_entry ::
  "docid_t \<Rightarrow> decoder \<times> masked_documents_registry \<Rightarrow> (decoder \<times> masked_documents_registry) list" where
  "step_entry m e = (if cur_id e = m then next_entry e else [e])"

lemma advance_all_step: "advance_all m ds = concat (map (step_entry m) ds)"
proof -
  have "step_entry m = (\<lambda>e. if cur_id e = m then next_entry e else [e])"
    by (rule ext) (simp add: step_entry_def)
  then show ?thesis by (simp add: advance_all_def)
qed

lemma step_entry_length: "length (step_entry m e) \<le> 1"
  using next_entry_cases [of e] by (auto simp: step_entry_def)

lemma step_entry_props:
  assumes "ascending e" and "m \<le> cur_id e" and "e' \<in> set (step_entry m e)"
  shows "snd e' = snd e" and "set (docs_of e') \<subseteq> set (docs_of e)" and "ascending e'"
    and "\<forall>d\<in>set (docs_of e'). m < doc_id d"
proof -
  show "snd e' = snd e" using assms next_entry_props(1) [of e e']
    by (auto simp: step_entry_def split: if_splits)
  show "set (docs_of e') \<subseteq> set (docs_of e)" using assms next_entry_props(2) [of e e']
    by (auto simp: step_entry_def split: if_splits)
  show "ascending e'" using assms next_entry_props(3) [of e e']
    by (auto simp: step_entry_def split: if_splits)
  show "\<forall>d\<in>set (docs_of e'). m < doc_id d"
  proof (cases "cur_id e = m")
    case True
    then show ?thesis using assms next_entry_props(4) [of e e'] by (simp add: step_entry_def)
  next
    case False
    then have "e' = e" "m < cur_id e" using assms by (auto simp: step_entry_def)
    then show ?thesis using ascending_lower [OF assms(1)] by fastforce
  qed
qed

lemma step_entry_keeps:
  assumes "d \<in> set (docs_of e)" and "doc_id d \<noteq> m"
  shows "\<exists>e'\<in>set (step_entry m e). d \<in> set (docs_of e')"
proof (cases "cur_id e = m")
  case True
  then have "d \<noteq> curDocument (fst e)" using assms(2) by (auto simp: cur_id_def)
  then have "d \<in> set (concat (map docs_of (next_entry e)))"
    using assms(1) docs_of_next_entry [of e] by auto
  then show ?thesis using True by (auto simp: step_entry_def)
next
  case False
  then show ?thesis using assms(1) by (simp add: step_entry_def)
qed

lemma concat_map_split:
  assumes "concat (map f xs) = pre' @ y # post'" and "\<And>x. length (f x) \<le> 1"
  shows "\<exists>pre x post. xs = pre @ x # post \<and> f x = [y] \<and>
           concat (map f pre) = pre' \<and> concat (map f post) = post'"
  using assms(1)
proof (induction xs arbitrary: pre')
  case Nil
  then show ?case by simp
next
  case (Cons x xs)
  consider (none) "f x = []" | (one) z where "f x = [z]"
    using assms(2) [of x] by (cases "f x") (auto simp: Suc_le_eq)
  then show ?case
  proof cases
    case none
    then have "concat (map f xs) = pre' @ y # post'" using Cons.prems by simp
    from Cons.IH [OF this] obtain pre x' post where
      "xs = pre @ x' # post" "f x' = [y]" "concat (map f pre) = pre'" "concat (map f post) = post'"
      by blast
    then have "x # xs = (x # pre) @ x' # post \<and> f x' = [y] \<and>
        concat (map f (x # pre)) = pre' \<and> concat (map f post) = post'" using none by simp
    then show ?thesis by blast
  next
    case one
    show ?thesis
    proof (cases pre')
      case Nil
      then have "z = y" "concat (map f xs) = post'" using Cons.prems one by simp_all
      then have "x # xs = [] @ x # xs \<and> f x = [y] \<and>
          concat (map f []) = pre' \<and> concat (map f xs) = post'" using one Nil by simp
      then show ?thesis by blast
    next
      case (Cons p ps)
      then have "concat (map f xs) = ps @ y # post'" "p = z" using Cons.prems one by simp_all
      from Cons.IH [OF this(1)] obtain pre x' post where
        "xs = pre @ x' # post" "f x' = [y]" "concat (map f pre) = ps" "concat (map f post) = post'"
        by blast
      then have "x # xs = (x # pre) @ x' # post \<and> f x' = [y] \<and>
          concat (map f (x # pre)) = pre' \<and> concat (map f post) = post'"
        using one Cons \<open>p = z\<close> by simp
      then show ?thesis by blast
    qed
  qed
qed

lemma winners_Nil: "winners [] = {}"
  by (simp add: winners_def)

lemma winners_step:
  assumes asc: "\<forall>x\<in>set ds. ascending x"
    and low: "\<forall>x\<in>set ds. m \<le> cur_id x"
    and split: "ds = pre1 @ e1 # post1" "cur_id e1 = m" "\<forall>x\<in>set pre1. cur_id x \<noteq> m"
  shows "winners ds =
           (if \<not> registry_test (snd e1) m then {curDocument (fst e1)} else {}) \<union>
           winners (advance_all m ds)"
    (is "_ = ?emit \<union> _")
proof (intro set_eqI iffI)
  fix d assume "d \<in> winners ds"
  then obtain pre e post where w: "ds = pre @ e # post" "d \<in> set (docs_of e)"
    "\<not> registry_test (snd e) (doc_id d)" "\<forall>x\<in>set pre. doc_id d \<notin> doc_id ` set (docs_of x)"
    unfolding winners_def by blast
  have e: "ascending e" "m \<le> cur_id e" using asc low w(1) by auto
  show "d \<in> ?emit \<union> winners (advance_all m ds)"
  proof (cases "doc_id d = m")
    case True
    have "cur_id e \<le> doc_id d" by (rule ascending_lower [OF e(1) w(2)])
    then have ce: "cur_id e = m" using e(2) True by simp
    then have d: "d = curDocument (fst e)" using ascending_current [OF e(1) w(2)] True by simp
    have none: "\<forall>x\<in>set pre. cur_id x \<noteq> m"
    proof (intro ballI notI)
      fix x assume "x \<in> set pre" "cur_id x = m"
      then have "doc_id (curDocument (fst x)) = doc_id d" using True by (simp add: cur_id_def)
      then have "doc_id d \<in> doc_id ` set (docs_of x)"
        using current_in_docs [of x] by (metis image_eqI)
      then show False using w(4) \<open>x \<in> set pre\<close> by blast
    qed
    have "pre = pre1 \<and> e = e1"
    proof -
      have a: "pre @ e # post = pre1 @ e1 # post1" using w(1) split(1) by simp
      have "length pre = length pre1"
      proof (rule ccontr)
        assume "length pre \<noteq> length pre1"
        then consider "length pre < length pre1" | "length pre1 < length pre" by linarith
        then show False
        proof cases
          case 1
          then have "pre1 ! length pre = (pre @ e # post) ! length pre"
            using a by (metis nth_append)
          then have "e \<in> set pre1" using 1 by (metis nth_append_length nth_mem)
          then show False using split(3) ce by blast
        next
          case 2
          then have "pre ! length pre1 = (pre1 @ e1 # post1) ! length pre1"
            using a by (metis nth_append)
          then have "e1 \<in> set pre" using 2 by (metis nth_append_length nth_mem)
          then show False using none split(2) by blast
        qed
      qed
      then show ?thesis using a by (simp add: append_eq_append_conv)
    qed
    then show ?thesis using d w(3) True by simp
  next
    case False
    from step_entry_keeps [OF w(2) False] obtain e' where
      e': "e' \<in> set (step_entry m e)" "d \<in> set (docs_of e')" by blast
    then have se: "step_entry m e = [e']"
      using step_entry_length [of m e] by (cases "step_entry m e") auto
    have adv: "advance_all m ds = advance_all m pre @ e' # advance_all m post"
      using w(1) se by (simp add: advance_all_step)
    have "snd e' = snd e" by (rule step_entry_props(1) [OF e e'(1)])
    then have unmasked: "\<not> registry_test (snd e') (doc_id d)" using w(3) by simp
    have "\<forall>x'\<in>set (advance_all m pre). doc_id d \<notin> doc_id ` set (docs_of x')"
    proof (intro ballI)
      fix x' assume "x' \<in> set (advance_all m pre)"
      then obtain x where x: "x \<in> set pre" "x' \<in> set (step_entry m x)"
        by (auto simp: advance_all_step)
      then have "ascending x" "m \<le> cur_id x" using asc low w(1) by auto
      then have "set (docs_of x') \<subseteq> set (docs_of x)" using step_entry_props(2) x(2) by blast
      then show "doc_id d \<notin> doc_id ` set (docs_of x')" using w(4) x(1) by blast
    qed
    then have "d \<in> winners (advance_all m ds)"
      unfolding winners_def using adv e'(2) unmasked by blast
    then show ?thesis by simp
  qed
next
  fix d assume "d \<in> ?emit \<union> winners (advance_all m ds)"
  then consider (emit) "d \<in> ?emit" | (later) "d \<in> winners (advance_all m ds)" by blast
  then show "d \<in> winners ds"
  proof cases
    case emit
    then have d: "d = curDocument (fst e1)" "\<not> registry_test (snd e1) m"
      by (auto split: if_splits)
    have id: "doc_id d = m" using d(1) split(2) by (simp add: cur_id_def)
    have "\<forall>x\<in>set pre1. doc_id d \<notin> doc_id ` set (docs_of x)"
    proof (intro ballI notI)
      fix x assume x: "x \<in> set pre1" "doc_id d \<in> doc_id ` set (docs_of x)"
      then obtain d' where d': "d' \<in> set (docs_of x)" "doc_id d' = m" using id by auto
      have ax: "ascending x" "m \<le> cur_id x" using asc low split(1) x(1) by auto
      have "cur_id x \<le> m" using ascending_lower [OF ax(1) d'(1)] d'(2) by simp
      then show False using ax(2) split(3) x(1) by auto
    qed
    moreover have "d \<in> set (docs_of e1)" using d(1) current_in_docs [of e1] by simp
    moreover have "\<not> registry_test (snd e1) (doc_id d)" using d(2) id by simp
    ultimately have "\<exists>pre e post. ds = pre @ e # post \<and> d \<in> set (docs_of e) \<and>
           \<not> registry_test (snd e) (doc_id d) \<and>
           (\<forall>x\<in>set pre. doc_id d \<notin> doc_id ` set (docs_of x))"
      using split(1) by blast
    then show ?thesis unfolding winners_def by simp
  next
    case later
    then obtain pre' e' post' where w: "advance_all m ds = pre' @ e' # post'"
      "d \<in> set (docs_of e')" "\<not> registry_test (snd e') (doc_id d)"
      "\<forall>x\<in>set pre'. doc_id d \<notin> doc_id ` set (docs_of x)"
      unfolding winners_def by blast
    from concat_map_split [of "step_entry m" ds pre' e' post'] w(1) step_entry_length
    obtain pre e post where s: "ds = pre @ e # post" "step_entry m e = [e']"
      "concat (map (step_entry m) pre) = pre'"
      by (auto simp: advance_all_step)
    have e: "ascending e" "m \<le> cur_id e" using asc low s(1) by auto
    have e'in: "e' \<in> set (step_entry m e)" using s(2) by simp
    have in_e: "d \<in> set (docs_of e)" using step_entry_props(2) [OF e e'in] w(2) by blast
    have unmasked: "\<not> registry_test (snd e) (doc_id d)"
      using step_entry_props(1) [OF e e'in] w(3) by simp
    have above: "m < doc_id d" using step_entry_props(4) [OF e e'in] w(2) by blast
    have "\<forall>x\<in>set pre. doc_id d \<notin> doc_id ` set (docs_of x)"
    proof (intro ballI notI)
      fix x assume x: "x \<in> set pre" "doc_id d \<in> doc_id ` set (docs_of x)"
      then obtain d' where d': "d' \<in> set (docs_of x)" "doc_id d' = doc_id d" by auto
      then have "doc_id d' \<noteq> m" using above by simp
      from step_entry_keeps [OF d'(1) this] obtain x' where
        "x' \<in> set (step_entry m x)" "d' \<in> set (docs_of x')" by blast
      then have "x' \<in> set pre'" "doc_id d \<in> doc_id ` set (docs_of x')"
        using s(3) x(1) d'(2) by (auto intro: rev_image_eqI)
      then show False using w(4) by blast
    qed
    then show ?thesis unfolding winners_def using s(1) in_e unmasked by blast
  qed
qed

lemma decoders_weight_append:
  "decoders_weight (xs @ ys) = decoders_weight xs + decoders_weight ys"
  by (simp add: decoders_weight_def)

lemma next_entry_weight: "decoders_weight (next_entry e) < decoders_weight [e]"
  by (auto simp: next_entry_def dec_next_def decoders_weight_def split: list.splits)

lemma advance_all_weight_le: "decoders_weight (advance_all m ds) \<le> decoders_weight ds"
proof (induction ds)
  case Nil
  then show ?case by (simp add: advance_all_def)
next
  case (Cons e ds)
  have "decoders_weight (step_entry m e) \<le> decoders_weight [e]"
    using next_entry_weight [of e] by (simp add: step_entry_def)
  moreover have "advance_all m (e # ds) = step_entry m e @ advance_all m ds"
    by (simp add: advance_all_step)
  moreover have "decoders_weight (e # ds) = decoders_weight [e] + decoders_weight ds"
    using decoders_weight_append [of "[e]" ds] by simp
  ultimately show ?case using Cons.IH by (simp add: decoders_weight_append)
qed

lemma advance_all_weight_less:
  assumes "ds = pre @ e # post" and "cur_id e = m"
  shows "decoders_weight (advance_all m ds) < decoders_weight ds"
proof -
  have "advance_all m ds = advance_all m pre @ next_entry e @ advance_all m post"
    using assms by (simp add: advance_all_step step_entry_def)
  moreover have "decoders_weight ds = decoders_weight pre + decoders_weight [e] + decoders_weight post"
    using assms(1) decoders_weight_append [of pre "e # post"] decoders_weight_append [of "[e]" post]
    by simp
  ultimately show ?thesis
    using advance_all_weight_le [of m pre] advance_all_weight_le [of m post] next_entry_weight [of e]
    by (simp add: decoders_weight_append)
qed

lemma winners_member: "d \<in> winners ds \<Longrightarrow> \<exists>x\<in>set ds. d \<in> set (docs_of x)"
proof -
  assume "d \<in> winners ds"
  then obtain pre e post where "ds = pre @ e # post" "d \<in> set (docs_of e)"
    unfolding winners_def by blast
  then have "e \<in> set ds" by simp
  then show ?thesis using \<open>d \<in> set (docs_of e)\<close> by blast
qed

lemma merge_decoders_winners:
  assumes "ds \<noteq> []" and "\<forall>x\<in>set ds. ascending x"
  shows "\<exists>out. merge_decoders ds enc = Inr (enc @ out) \<and> sorted_wrt (<) (map doc_id out) \<and>
           set out = winners ds"
  using assms
proof (induction "decoders_weight ds" arbitrary: ds enc rule: less_induct)
  case less
  define m where "m = Min (cur_id ` set ds)"
  from merge_decoders_unfold [OF less.prems(1), of enc]
  obtain pre e post where u: "ds = pre @ e # post" "cur_id e = m" "\<forall>x\<in>set pre. cur_id x \<noteq> m"
    and eq: "merge_decoders ds enc =
             (if advance_all m ds = []
              then Inr (if \<not> registry_test (snd e) (cur_id e) then enc @ [curDocument (fst e)] else enc)
              else merge_decoders (advance_all m ds)
                     (if \<not> registry_test (snd e) (cur_id e) then enc @ [curDocument (fst e)] else enc))"
    unfolding m_def by blast
  define emit where "emit = (if \<not> registry_test (snd e) m then [curDocument (fst e)] else [])"
  have enc': "(if \<not> registry_test (snd e) (cur_id e) then enc @ [curDocument (fst e)] else enc) =
      enc @ emit" by (simp add: emit_def u(2))
  have low: "\<forall>x\<in>set ds. m \<le> cur_id x"
    unfolding m_def using less.prems(1) by simp
  have win: "winners ds = set emit \<union> winners (advance_all m ds)"
    using winners_step [OF less.prems(2) low u] by (simp add: emit_def)
  have emit_id: "\<forall>d\<in>set emit. doc_id d = m" using u(2) by (simp add: emit_def cur_id_def)
  show ?case
  proof (cases "advance_all m ds = []")
    case True
    then have "merge_decoders ds enc = Inr (enc @ emit)" using eq enc' by simp
    moreover have "sorted_wrt (<) (map doc_id emit)" by (simp add: emit_def)
    moreover have "set emit = winners ds" using win True by (simp add: winners_Nil)
    ultimately show ?thesis by blast
  next
    case False
    have asc': "\<forall>x'\<in>set (advance_all m ds). ascending x'"
      and above: "\<forall>x'\<in>set (advance_all m ds). \<forall>d\<in>set (docs_of x'). m < doc_id d"
    proof -
      have "ascending x' \<and> (\<forall>d\<in>set (docs_of x'). m < doc_id d)"
        if "x' \<in> set (advance_all m ds)" for x'
      proof -
        from that obtain x where x: "x \<in> set ds" "x' \<in> set (step_entry m x)"
          by (auto simp: advance_all_step)
        then have "ascending x" "m \<le> cur_id x" using less.prems(2) low by auto
        then show ?thesis using step_entry_props(3,4) x(2) by blast
      qed
      then show "\<forall>x'\<in>set (advance_all m ds). ascending x'"
        and "\<forall>x'\<in>set (advance_all m ds). \<forall>d\<in>set (docs_of x'). m < doc_id d" by blast+
    qed
    have "decoders_weight (advance_all m ds) < decoders_weight ds"
      by (rule advance_all_weight_less [OF u(1,2)])
    from less.hyps [OF this False asc', of "enc @ emit"]
    obtain out' where o: "merge_decoders (advance_all m ds) (enc @ emit) = Inr ((enc @ emit) @ out')"
      "sorted_wrt (<) (map doc_id out')" "set out' = winners (advance_all m ds)" by blast
    have later: "\<forall>d\<in>set out'. m < doc_id d"
    proof
      fix d assume "d \<in> set out'"
      then have "d \<in> winners (advance_all m ds)" using o(3) by simp
      then obtain x' where "x' \<in> set (advance_all m ds)" "d \<in> set (docs_of x')"
        using winners_member by blast
      then show "m < doc_id d" using above by blast
    qed
    have "merge_decoders ds enc = Inr (enc @ (emit @ out'))" using eq enc' False o(1) by simp
    moreover have "sorted_wrt (<) (map doc_id (emit @ out'))"
    proof -
      have "sorted_wrt (<) (map doc_id emit)" by (simp add: emit_def)
      moreover have "\<forall>x\<in>set emit. \<forall>y\<in>set out'. doc_id x < doc_id y"
        using later emit_id by metis
      ultimately show ?thesis using o(2) by (simp add: sorted_wrt_append)
    qed
    moreover have "set (emit @ out') = winners ds" using win o(3) by simp
    ultimately show ?thesis by blast
  qed
qed

lemma winners_index:
  "d \<in> winners ds \<longleftrightarrow>
   (\<exists>k<length ds. d \<in> set (docs_of (ds ! k)) \<and> \<not> registry_test (snd (ds ! k)) (doc_id d) \<and>
      (\<forall>j<k. doc_id d \<notin> doc_id ` set (docs_of (ds ! j))))"
proof
  assume "d \<in> winners ds"
  then obtain pre e post where w: "ds = pre @ e # post" "d \<in> set (docs_of e)"
    "\<not> registry_test (snd e) (doc_id d)" "\<forall>x\<in>set pre. doc_id d \<notin> doc_id ` set (docs_of x)"
    unfolding winners_def by blast
  have "length pre < length ds" "ds ! length pre = e" using w(1) by simp_all
  moreover have "\<forall>j<length pre. doc_id d \<notin> doc_id ` set (docs_of (ds ! j))"
    using w(1,4) by (simp add: nth_append)
  ultimately show "\<exists>k<length ds. d \<in> set (docs_of (ds ! k)) \<and>
      \<not> registry_test (snd (ds ! k)) (doc_id d) \<and>
      (\<forall>j<k. doc_id d \<notin> doc_id ` set (docs_of (ds ! j)))"
    using w(2,3) by blast
next
  assume "\<exists>k<length ds. d \<in> set (docs_of (ds ! k)) \<and>
      \<not> registry_test (snd (ds ! k)) (doc_id d) \<and>
      (\<forall>j<k. doc_id d \<notin> doc_id ` set (docs_of (ds ! j)))"
  then obtain k where k: "k < length ds" "d \<in> set (docs_of (ds ! k))"
    "\<not> registry_test (snd (ds ! k)) (doc_id d)"
    "\<forall>j<k. doc_id d \<notin> doc_id ` set (docs_of (ds ! j))" by blast
  have split: "ds = take k ds @ ds ! k # drop (Suc k) ds"
    using k(1) by (simp add: id_take_nth_drop)
  have "\<forall>x\<in>set (take k ds). doc_id d \<notin> doc_id ` set (docs_of x)"
  proof
    fix x assume "x \<in> set (take k ds)"
    then obtain j where "j < k" "x = ds ! j"
      using k(1) by (auto simp: in_set_conv_nth)
    then show "doc_id d \<notin> doc_id ` set (docs_of x)" using k(4) by simp
  qed
  then have "\<exists>pre e post. ds = pre @ e # post \<and> d \<in> set (docs_of e) \<and>
           \<not> registry_test (snd e) (doc_id d) \<and>
           (\<forall>x\<in>set pre. doc_id d \<notin> doc_id ` set (docs_of x))"
    using split k(2,3) by blast
  then show "d \<in> winners ds" unfolding winners_def by simp
qed

lemma first_at_lowest:
  assumes "ds = pre @ e # post" and "cur_id e = m" and "\<forall>x\<in>set pre. cur_id x \<noteq> m"
  shows "hd (filter (\<lambda>x. cur_id x = m) ds) = e"
proof -
  have "filter (\<lambda>x. cur_id x = m) pre = []" using assms(3) by (simp add: filter_empty_conv)
  then show ?thesis using assms(1,2) by simp
qed

text \<open>
  The inner loop on its own, for any decoders that each yield strictly ascending document
  ids: the ids written are strictly ascending, a document is written exactly when it is the
  document of the first decoder of the list among those that hold its id and the registry of
  that decoder does not mask it, and each iteration advances every decoder positioned at
  the lowest id.
\<close>

lemma merge_decoders_spec:
  assumes "decoders \<noteq> []"
    and "\<forall>e\<in>set decoders. sorted_wrt (<) (map doc_id (dec_docs (fst e)))"
  shows "(\<exists>out. merge_decoders decoders [] = Inr out \<and>
            sorted_wrt (<) (map doc_id out) \<and> distinct (map doc_id out) \<and>
            (\<forall>d. d \<in> set out \<longleftrightarrow>
               (\<exists>k<length decoders.
                  d \<in> set (dec_docs (fst (decoders ! k))) \<and>
                  \<not> registry_test (snd (decoders ! k)) (doc_id d) \<and>
                  (\<forall>j<k. doc_id d \<notin> doc_id ` set (dec_docs (fst (decoders ! j))))))) \<and>
         (\<forall>enc. merge_decoders decoders enc =
            (let lowestDID = Min (cur_id ` set decoders);
                 first = hd (filter (\<lambda>x. cur_id x = lowestDID) decoders);
                 enc' = (if \<not> registry_test (snd first) lowestDID
                         then enc @ [curDocument (fst first)] else enc)
             in if advance_all lowestDID decoders = [] then Inr enc'
                else merge_decoders (advance_all lowestDID decoders) enc'))"
proof
  have asc: "\<forall>x\<in>set decoders. ascending x"
    using assms(2) by (simp add: ascending_def docs_of_def)
  from merge_decoders_winners [OF assms(1) asc, of "[]"]
  obtain out where o: "merge_decoders decoders [] = Inr out" "sorted_wrt (<) (map doc_id out)"
    "set out = winners decoders" by auto
  have "distinct (map doc_id out)" using o(2) strict_sorted_iff by blast
  moreover have "\<forall>d. d \<in> set out \<longleftrightarrow>
               (\<exists>k<length decoders.
                  d \<in> set (dec_docs (fst (decoders ! k))) \<and>
                  \<not> registry_test (snd (decoders ! k)) (doc_id d) \<and>
                  (\<forall>j<k. doc_id d \<notin> doc_id ` set (dec_docs (fst (decoders ! j)))))"
    using winners_index [of _ decoders] o(3) by (simp add: docs_of_def)
  ultimately show "\<exists>out. merge_decoders decoders [] = Inr out \<and>
            sorted_wrt (<) (map doc_id out) \<and> distinct (map doc_id out) \<and>
            (\<forall>d. d \<in> set out \<longleftrightarrow>
               (\<exists>k<length decoders.
                  d \<in> set (dec_docs (fst (decoders ! k))) \<and>
                  \<not> registry_test (snd (decoders ! k)) (doc_id d) \<and>
                  (\<forall>j<k. doc_id d \<notin> doc_id ` set (dec_docs (fst (decoders ! j))))))"
    using o(1,2) by blast
next
  show "\<forall>enc. merge_decoders decoders enc =
            (let lowestDID = Min (cur_id ` set decoders);
                 first = hd (filter (\<lambda>x. cur_id x = lowestDID) decoders);
                 enc' = (if \<not> registry_test (snd first) lowestDID
                         then enc @ [curDocument (fst first)] else enc)
             in if advance_all lowestDID decoders = [] then Inr enc'
                else merge_decoders (advance_all lowestDID decoders) enc')"
  proof
    fix enc
    define m where "m = Min (cur_id ` set decoders)"
    from merge_decoders_unfold [OF assms(1), of enc]
    obtain pre e post where u: "decoders = pre @ e # post" "cur_id e = m"
      "\<forall>x\<in>set pre. cur_id x \<noteq> m"
      and eq: "merge_decoders decoders enc =
             (if advance_all m decoders = []
              then Inr (if \<not> registry_test (snd e) (cur_id e) then enc @ [curDocument (fst e)] else enc)
              else merge_decoders (advance_all m decoders)
                     (if \<not> registry_test (snd e) (cur_id e) then enc @ [curDocument (fst e)] else enc))"
      unfolding m_def by blast
    have "hd (filter (\<lambda>x. cur_id x = m) decoders) = e" by (rule first_at_lowest [OF u])
    then show "merge_decoders decoders enc =
            (let lowestDID = Min (cur_id ` set decoders);
                 first = hd (filter (\<lambda>x. cur_id x = lowestDID) decoders);
                 enc' = (if \<not> registry_test (snd first) lowestDID
                         then enc @ [curDocument (fst first)] else enc)
             in if advance_all lowestDID decoders = [] then Inr enc'
                else merge_decoders (advance_all lowestDID decoders) enc')"
      using eq u(2) unfolding m_def [symmetric] Let_def by simp
  qed
qed

section \<open>More than 256 candidates holding one document\<close>

text \<open>
  Candidate \<open>k\<close> of a collection whose candidates all hold the single term \<open>x\<close>, with
  one document, of id 5, whose only hit is at position \<open>k\<close>; the codecs alternate and no
  candidate masks anything.
\<close>

definition dup_ap :: "nat \<Rightarrow> access_proxy" where
  "dup_ap k =
     \<lparr>codec_identifier = (if even k then ''G'' else ''L''),
      new_decoder = (\<lambda>tctx. \<lparr>curDocument = \<lparr>doc_id = 5, doc_hits = [\<lparr>pos = of_nat k, payload = []\<rparr>]\<rparr>,
                               pending = []\<rparr>)\<rparr>"

definition dup_candidate :: "nat \<Rightarrow> merge_candidate" where
  "dup_candidate k =
     \<lparr>gen = of_nat (1000 - k), terms = Some [(''x'', \<lparr>documents = 1, chunk = 0\<rparr>)],
      ap = Some (dup_ap k), maskedDocuments = []\<rparr>"

definition dup_tracked :: "nat \<Rightarrow> tracked_candidate" where
  "dup_tracked k =
     \<lparr>idx = k, tc_terms = [(''x'', \<lparr>documents = 1, chunk = 0\<rparr>)], tc_ap = dup_ap k\<rparr>"

lemma gen_dup_less:
  assumes "k < n" "n \<le> 1000"
  shows "gen (dup_candidate n) < gen (dup_candidate k)"
proof -
  have "unat (of_nat (1000 - n) :: 64 word) = 1000 - n"
    by (simp add: unat_of_nat)
  moreover have "unat (of_nat (1000 - k) :: 64 word) = 1000 - k"
    by (simp add: unat_of_nat)
  ultimately show ?thesis using assms
    by (simp add: dup_candidate_def word_less_nat_alt)
qed

lemma sort_gen_desc_dup:
  "n \<le> 1000 \<Longrightarrow> sort_gen_desc (map dup_candidate [0..<n]) = map dup_candidate [0..<n]"
proof -
  assume n: "n \<le> 1000"
  let ?xs = "map dup_candidate [0..<n]"
  have "sorted_wrt (\<lambda>a b. gen b \<le> gen a) ?xs"
    using n by (auto simp: sorted_wrt_iff_nth_less intro!: less_imp_le gen_dup_less)
  then have "sorted (map gen (rev ?xs))"
    by (simp add: sorted_map sorted_wrt_rev)
  then have "sort_key gen (rev ?xs) = rev ?xs" by (rule sort_key_id_if_sorted)
  then show ?thesis by (simp add: sort_gen_desc_def)
qed

lemma commit_dup:
  "n \<le> 1000 \<Longrightarrow>
   commit (map dup_candidate [0..<n]) =
     \<lparr>candidates = map dup_candidate [0..<n],
      cmap = map (\<lambda>c. (c, 0)) (map dup_candidate [0..<n]), call = []\<rparr>"
proof -
  assume n: "n \<le> 1000"
  have "commit_loop (map dup_candidate [0..<n]) [] [] =
          (map (\<lambda>c. (c, 0)) (map dup_candidate [0..<n]), [])"
    using commit_loop_no_masks [of "map dup_candidate [0..<n]" "[]" "[]"]
    by (simp add: dup_candidate_def)
  then show ?thesis by (simp add: commit_def sort_gen_desc_dup [OF n])
qed

lemma scanner_registry_for_dup:
  "n \<le> 1000 \<Longrightarrow> scanner_registry_for (commit (map dup_candidate [0..<n])) i = []"
  by (simp add: commit_dup scanner_registry_for_def registry_make_def)

lemma build_tracked_dup:
  "n \<le> 1000 \<Longrightarrow> i \<le> n \<Longrightarrow> (prev = None \<and> i = 0 \<or> (0 < i \<and> prev = Some (dup_candidate (i - 1)))) \<Longrightarrow>
   build_tracked i prev (map dup_candidate [i..<n]) = Inr (map dup_tracked [i..<n])"
proof (induction "n - i" arbitrary: i prev)
  case 0
  then show ?case by simp
next
  case (Suc d)
  then have lt: "i < n" by simp
  then have up: "[i..<n] = i # [Suc i..<n]" by (simp add: upt_rec)
  have ok: "\<not> (case prev of None \<Rightarrow> False | Some p \<Rightarrow> \<not> gen (dup_candidate i) < gen p)"
    using Suc.prems lt gen_dup_less [of "i - 1" i] by (auto split: option.splits)
  have IH: "build_tracked (Suc i) (Some (dup_candidate i)) (map dup_candidate [Suc i..<n]) =
              Inr (map dup_tracked [Suc i..<n])"
    using Suc.hyps(1) [of "Suc i" "Some (dup_candidate i)"] Suc.hyps(2) Suc.prems lt by simp
  have t: "terms (dup_candidate i) = Some [(''x'', \<lparr>documents = 1, chunk = 0\<rparr>)]"
    "ap (dup_candidate i) = Some (dup_ap i)"
    by (simp_all add: dup_candidate_def)
  show ?case using ok IH t by (simp add: up dup_tracked_def)
qed

lemma merge_head_dup:
  "n \<le> 1000 \<Longrightarrow> merge_head (map dup_candidate [0..<n]) = Inr (map dup_tracked [0..<n])"
  using build_tracked_dup [of n 0 None] by (simp add: merge_head_def)

lemma dup_tracked_simps:
  "tc_terms (dup_tracked k) = [(''x'', \<lparr>documents = 1, chunk = 0\<rparr>)]"
  "tc_ap (dup_tracked k) = dup_ap k" "idx (dup_tracked k) = k"
  by (simp_all add: dup_tracked_def)

lemma hd_map_dup: "0 < n \<Longrightarrow> hd (map dup_tracked [0..<n]) = dup_tracked 0"
  by (simp add: hd_map upt_rec)

lemma merge_loop_256_dup:
  assumes "256 \<le> length ta"
  shows "merge_loop col sess flushFreq ta (map dup_tracked [0..<256]) out = Inr out"
proof -
  let ?al = "map dup_tracked [0..<256]"
  let ?s = "select_terms ta ?al"
  have ne: "?al \<noteq> []" by simp
  have full: "\<not> list_ex (\<lambda>t. tc_terms t = []) ?al"
    by (simp add: list_ex_iff dup_tracked_simps)
  have "toAdvanceCnt ?s = of_nat (length ?al) \<and>
        toAdvance ?s = map Some [0..<length ?al] @ drop (length ?al) ta"
    using select_terms_tied [of ?al ta] ne assms
    by (simp add: dup_tracked_simps hd_map_dup del: upt_Suc)
  then have cnt: "toAdvanceCnt ?s = 0" and ta: "toAdvance ?s = map Some [0..<256] @ drop 256 ta"
    by simp_all
  have pt: "process_term col sess ?s ?al out = Inr out"
    using cnt by (rule process_term_zero_count)
  have "advance_terms (of_nat 256) (toAdvance ?s) ?al = Inr []"
    by (rule advance_terms_all_done) (simp_all add: ta dup_tracked_simps nth_append)
  moreover have "(of_nat 256 :: 8 word) = 0" by simp
  ultimately have adv: "advance_terms (toAdvanceCnt ?s) (toAdvance ?s) ?al = Inr []"
    using cnt by (simp only:)
  show ?thesis
    by (subst merge_loop.simps) (simp add: ne full pt adv Let_def del: upt_Suc)
qed

lemma select_terms_append:
  "xs \<noteq> [] \<Longrightarrow> select_terms ta (xs @ ys) = select_loop (select_terms ta xs) (length xs) ys"
  by (cases xs) (simp_all add: select_terms_def select_loop_append)

lemma dup_258_split:
  "map dup_tracked [0..<258] = map dup_tracked [0..<256] @ [dup_tracked 256, dup_tracked 257]"
proof -
  have "[0..<257] = [0..<256] @ [256]" using upt_Suc_append [of 0 256] by simp
  moreover have "[0..<258] = [0..<257] @ [257]" using upt_Suc_append [of 0 257] by simp
  ultimately have "[0..<258] = [0..<256] @ [256, 257]" by simp
  then show ?thesis by (simp only: map_append list.map)
qed

lemma select_terms_258_dup:
  defines "s \<equiv> select_terms (replicate 258 None) (map dup_tracked [0..<258])"
  shows "toAdvanceCnt s = 2"
    and "toAdvance s = Some 256 # Some 257 # map Some [2..<256] @ [None, None]"
    and "selected s = (''x'', \<lparr>documents = 1, chunk = 0\<rparr>)" and "\<not> sameCODEC s"
proof -
  let ?xs = "map dup_tracked [0..<256]"
  let ?s0 = "select_terms (replicate 258 None) ?xs"
  let ?s1 = "select_step ?s0 256 (dup_tracked 256)"
  have ne: "?xs \<noteq> []" by simp
  have len: "length ?xs = 256" by simp
  have s: "s = select_step ?s1 257 (dup_tracked 257)"
    unfolding s_def dup_258_split using select_terms_append [OF ne] len
    by (simp del: upt_Suc)
  have one: "dup_tracked 1 \<in> set (tl ?xs)"
  proof -
    have "[0..<256] = 0 # [Suc 0..<256]" by (rule upt_conv_Cons) simp
    moreover have "[Suc 0..<256] = Suc 0 # [Suc (Suc 0)..<256]" by (rule upt_conv_Cons) simp
    ultimately have "[0..<256] = 0 # 1 # [2..<256]" by (simp add: numeral_2_eq_2)
    then show ?thesis by (simp only: list.map list.sel list.set insertI1)
  qed
  have s0: "toAdvanceCnt ?s0 = of_nat (length ?xs) \<and>
        toAdvance ?s0 = map Some [0..<length ?xs] @ drop (length ?xs) (replicate 258 None) \<and>
        selected ?s0 = hd (tc_terms (hd ?xs)) \<and>
        codec ?s0 = codec_identifier (tc_ap (hd ?xs)) \<and>
        sameCODEC ?s0 =
           (\<forall>t\<in>set (tl ?xs). codec_identifier (tc_ap t) = codec_identifier (tc_ap (hd ?xs)))"
    by (rule select_terms_tied) (simp_all add: ne dup_tracked_simps hd_map_dup del: upt_Suc)
  have "drop 256 (replicate 258 (None :: nat option)) = [None, None]"
    by (simp add: numeral_2_eq_2)
  with s0 have cnt0: "toAdvanceCnt ?s0 = 0"
    and ta0: "toAdvance ?s0 = map Some [0..<256] @ [None, None]"
    and sel0: "selected ?s0 = (''x'', \<lparr>documents = 1, chunk = 0\<rparr>)"
    by (simp_all add: hd_map_dup dup_tracked_simps del: upt_Suc)
  have "codec_identifier (tc_ap (dup_tracked 1)) \<noteq> codec_identifier (tc_ap (hd ?xs))"
    by (simp add: hd_map_dup dup_tracked_simps dup_ap_def del: upt_Suc)
  then have same0: "\<not> sameCODEC ?s0" using s0 one by blast
  have tied1: "fst (hd (tc_terms (dup_tracked 256))) = fst (selected ?s0)"
    by (simp add: sel0 dup_tracked_simps)
  note st1 = select_step_tied [OF tied1, of 256]
  have tied2: "fst (hd (tc_terms (dup_tracked 257))) = fst (selected ?s1)"
    by (simp add: st1(3) sel0 dup_tracked_simps)
  note st2 = select_step_tied [OF tied2, of 257]
  define U where "U = map Some [2..<256] @ [None :: nat option, None]"
  have "[0..<256] = 0 # [Suc 0..<256]" by (rule upt_conv_Cons) simp
  moreover have "[Suc 0..<256] = Suc 0 # [Suc (Suc 0)..<256]" by (rule upt_conv_Cons) simp
  ultimately have "[0..<256] = 0 # 1 # [2..<256]" by (simp add: numeral_2_eq_2)
  then have ta0': "toAdvance ?s0 = Some 0 # Some 1 # U"
    unfolding U_def ta0 by (simp only: list.map append_Cons)
  have cnt1: "toAdvanceCnt ?s1 = 1" using st1(1) cnt0 by simp
  have ta1: "toAdvance ?s1 = Some 256 # Some 1 # U" using st1(2) cnt0 ta0' by simp
  show "toAdvanceCnt s = 2" using st2(1) cnt1 by (simp add: s)
  have "toAdvance s = Some 256 # Some 257 # U" using st2(2) cnt1 ta1 by (simp add: s)
  then show "toAdvance s = Some 256 # Some 257 # map Some [2..<256] @ [None, None]"
    by (simp only: U_def)
  show "selected s = (''x'', \<lparr>documents = 1, chunk = 0\<rparr>)" using st2(3) st1(3) sel0 by (simp add: s)
  show "\<not> sameCODEC s" using st2(5) st1(5) same0 by (simp add: s)
qed


lemma dup_258_nth:
  "map dup_tracked [0..<258] ! 256 = dup_tracked 256"
  "map dup_tracked [0..<258] ! 257 = dup_tracked 257"
  by (simp_all add: dup_258_split nth_append del: upt_Suc)

lemma slow_path_term_258_dup:
  defines "s \<equiv> select_terms (replicate 258 None) (map dup_tracked [0..<258])"
  shows "read_slots (toAdvance s) (map dup_tracked [0..<258]) [0 ..< unat (toAdvanceCnt s)] =
           Inr [dup_tracked 256, dup_tracked 257]"
    and "new_decoders (commit (map dup_candidate [0..<258])) [dup_tracked 256, dup_tracked 257] =
           [(new_decoder (dup_ap 256) \<lparr>documents = 1, chunk = 0\<rparr>, []),
            (new_decoder (dup_ap 257) \<lparr>documents = 1, chunk = 0\<rparr>, [])]"
    and "process_term (commit (map dup_candidate [0..<258])) ex_session s
           (map dup_tracked [0..<258]) ex_empty =
         Inr \<lparr>indexOut = [[\<lparr>doc_id = 5, doc_hits = [\<lparr>pos = 256, payload = []\<rparr>]\<rparr>]],
              sink = [(''x'', \<lparr>documents = 1, chunk = 0\<rparr>)]\<rparr>"
proof -
  let ?al = "map dup_tracked [0..<258]"
  let ?col = "commit (map dup_candidate [0..<258])"
  note sel = select_terms_258_dup [folded s_def]
  define U where "U = map Some [2..<256] @ [None :: nat option, None]"
  have ta: "toAdvance s = Some 256 # Some 257 # U" using sel(2) by (simp only: U_def)
  have two: "[0 ..< unat (toAdvanceCnt s)] = [0, 1]"
    by (simp add: sel(1) upt_rec)
  have len: "length ?al = 258" by simp
  have r0: "read_slot (toAdvance s) 0 258 = Inr 256" by (simp add: ta read_slot_def)
  have r1: "read_slot (toAdvance s) (Suc 0) 258 = Inr 257" by (simp add: ta read_slot_def)
  show tied: "read_slots (toAdvance s) ?al [0 ..< unat (toAdvanceCnt s)] =
           Inr [dup_tracked 256, dup_tracked 257]"
    unfolding two by (simp add: r0 r1 dup_258_nth del: upt_Suc)
  have reg: "scanner_registry_for ?col i = []" for i
    by (rule scanner_registry_for_dup) simp
  show dec: "new_decoders ?col [dup_tracked 256, dup_tracked 257] =
           [(new_decoder (dup_ap 256) \<lparr>documents = 1, chunk = 0\<rparr>, []),
            (new_decoder (dup_ap 257) \<lparr>documents = 1, chunk = 0\<rparr>, [])]"
    by (simp add: dup_tracked_simps reg)
  have run: "merge_decoders
           [(new_decoder (dup_ap 256) \<lparr>documents = 1, chunk = 0\<rparr>, []),
            (new_decoder (dup_ap 257) \<lparr>documents = 1, chunk = 0\<rparr>, [])] [] =
         Inr [\<lparr>doc_id = 5, doc_hits = [\<lparr>pos = 256, payload = []\<rparr>]\<rparr>]"
    by (simp add: merge_decoders.simps lowest_select_def dec_next_def registry_test_def Let_def
        dup_ap_def)
  have slow: "slow_path_term ?col ex_session s ?al ex_empty =
         Inr \<lparr>indexOut = [[\<lparr>doc_id = 5, doc_hits = [\<lparr>pos = 256, payload = []\<rparr>]\<rparr>]],
              sink = [(''x'', \<lparr>documents = 1, chunk = 0\<rparr>)]\<rparr>"
    unfolding slow_path_term_def tied
    by (simp add: dec run sel(3) push_term_def end_term_def del: upt_Suc new_decoders.simps)
  show "process_term ?col ex_session s ?al ex_empty =
         Inr \<lparr>indexOut = [[\<lparr>doc_id = 5, doc_hits = [\<lparr>pos = 256, payload = []\<rparr>]\<rparr>]],
              sink = [(''x'', \<lparr>documents = 1, chunk = 0\<rparr>)]\<rparr>"
    using sel(1,4) slow by (simp add: process_term_def)
qed

lemma advance_terms_258_dup:
  "advance_terms 2 (Some 256 # Some 257 # map Some [2..<256] @ [None, None])
     (map dup_tracked [0..<258]) = Inr (map dup_tracked [0..<256])"
proof -
  define X where "X = map dup_tracked [0..<256]"
  define U where "U = map Some [2..<256] @ [None :: nat option, None]"
  let ?ta = "Some 256 # Some 257 # U"
  have X: "length X = 256" "X \<noteq> []" by (simp_all add: X_def)
  have al: "map dup_tracked [0..<258] = X @ [dup_tracked 256, dup_tracked 257]"
    unfolding X_def by (rule dup_258_split)
  have n257: "(X @ [dup_tracked 256, dup_tracked 257]) ! 257 = dup_tracked 257"
    using X(1) by (simp add: nth_append)
  have n256: "(X @ [dup_tracked 256]) ! 256 = dup_tracked 256"
    using X(1) by (simp add: nth_append)
  have second: "advance_terms 1 ?ta (X @ [dup_tracked 256]) = Inr X"
    using X by (subst advance_terms.simps)
      (simp add: read_slot_def n256 dup_tracked_simps Let_def)
  have first: "advance_terms 2 ?ta (X @ [dup_tracked 256, dup_tracked 257]) = Inr X"
    using X by (subst advance_terms.simps)
      (simp add: read_slot_def n257 dup_tracked_simps Let_def second)
  show ?thesis using first unfolding al U_def X_def .
qed


text \<open>
  C1. With 258 candidates at one term, of mixed codecs, each holding the document of id 5
  with a hit of its own, the selection counter has wrapped when the scan ends: the group
  of the first iteration is the candidates of index 256 and 257 alone. The inner loop of
  the path of several candidates with mixed codecs runs on their two decoders and writes,
  for id 5, the hits of candidate 256 and not those of candidate 0, the candidate of the
  lowest index and newest generation that holds the id; the 256 other candidates are
  advanced by the next iteration, which writes nothing.
\<close>

theorem merge_258_tied_candidates_writes_older_hits:
  "merge_head (candidates (commit (map dup_candidate [0..<258]))) =
     Inr (map dup_tracked [0..<258]) \<and>
   list_all (\<lambda>t. fst (hd (tc_terms t)) = ''x'' \<and>
                  dec_docs (new_decoder (tc_ap t) (snd (hd (tc_terms t)))) =
                    [\<lparr>doc_id = 5, doc_hits = [\<lparr>pos = of_nat (idx t), payload = []\<rparr>]\<rparr>])
     (map dup_tracked [0..<258]) \<and>
   toAdvanceCnt (select_terms (replicate 258 None) (map dup_tracked [0..<258])) = 2 \<and>
   \<not> sameCODEC (select_terms (replicate 258 None) (map dup_tracked [0..<258])) \<and>
   read_slots (toAdvance (select_terms (replicate 258 None) (map dup_tracked [0..<258])))
     (map dup_tracked [0..<258])
     [0 ..< unat (toAdvanceCnt (select_terms (replicate 258 None) (map dup_tracked [0..<258])))] =
     Inr [dup_tracked 256, dup_tracked 257] \<and>
   new_decoders (commit (map dup_candidate [0..<258])) [dup_tracked 256, dup_tracked 257] =
     [(new_decoder (dup_ap 256) \<lparr>documents = 1, chunk = 0\<rparr>, []),
      (new_decoder (dup_ap 257) \<lparr>documents = 1, chunk = 0\<rparr>, [])] \<and>
   merge (commit (map dup_candidate [0..<258])) ex_session ex_empty 0 =
     Inr \<lparr>indexOut = [[\<lparr>doc_id = 5, doc_hits = [\<lparr>pos = 256, payload = []\<rparr>]\<rparr>]],
          sink = [(''x'', \<lparr>documents = 1, chunk = 0\<rparr>)]\<rparr>"
proof -
  let ?al = "map dup_tracked [0..<258]"
  let ?s = "select_terms (replicate 258 None) ?al"
  let ?col = "commit (map dup_candidate [0..<258])"
  let ?out = "\<lparr>indexOut = [[\<lparr>doc_id = 5, doc_hits = [\<lparr>pos = 256, payload = []\<rparr>]\<rparr>]],
          sink = [(''x'', \<lparr>documents = 1, chunk = 0 :: nat\<rparr>)]\<rparr>"
  note sel = select_terms_258_dup
  note slow = slow_path_term_258_dup
  have head: "merge_head (candidates ?col) = Inr ?al"
    by (simp add: commit_dup merge_head_dup del: upt_Suc)
  have docs: "list_all (\<lambda>t. fst (hd (tc_terms t)) = ''x'' \<and>
                  dec_docs (new_decoder (tc_ap t) (snd (hd (tc_terms t)))) =
                    [\<lparr>doc_id = 5, doc_hits = [\<lparr>pos = of_nat (idx t), payload = []\<rparr>]\<rparr>]) ?al"
    by (simp add: list_all_iff dup_tracked_simps dup_ap_def dec_docs_def del: upt_Suc)
  have adv: "advance_terms (toAdvanceCnt ?s) (toAdvance ?s) ?al = Inr (map dup_tracked [0..<256])"
    by (simp only: sel(1,2) advance_terms_258_dup)
  have ne: "?al \<noteq> []" by simp
  have full: "\<not> list_ex (\<lambda>t. tc_terms t = []) ?al"
    by (simp add: list_ex_iff dup_tracked_simps del: upt_Suc)
  have ne': "map dup_tracked [0..<256] \<noteq> []" by simp
  have nxt: "merge_loop ?col ex_session 0 (toAdvance ?s) (map dup_tracked [0..<256]) ?out = Inr ?out"
    by (rule merge_loop_256_dup) (simp add: sel(2))
  have loop: "merge_loop ?col ex_session 0 (replicate 258 None) ?al ex_empty = Inr ?out"
    apply (subst merge_loop.simps)
    apply (simp only: ne full slow(3) adv Let_def simp_thms if_False sum.case)
    apply (cases "map dup_tracked [0..<256]")
    using ne' apply blast
    using nxt apply (simp del: upt_Suc)
    done
  have m: "merge ?col ex_session ex_empty 0 = Inr ?out"
    using head ne loop by (simp add: merge_def del: upt_Suc)
  show ?thesis using head docs sel(1,4) slow(1,2) m by (intro conjI)
qed

section \<open>Proofs: what the scan of the working set selects\<close>








section \<open>Proofs: every document written comes from a candidate at the term and is not masked\<close>

text \<open>
  A document is supplied at the term \<open>t\<close> by the candidate at position \<open>i\<close> of \<open>cs\<close>
  when that candidate has an accessor and lists the term, and the decoder its accessor
  makes for a context of the term yields the document; it is unmasked when no candidate
  before \<open>i\<close>, that is, none of a strictly newer generation once \<open>merge\<close> has checked the
  generations, has its id in its mask set. The context is the one the candidate at
  position \<open>k\<close> lists for the term; with \<open>own_context\<close> it is the supplier's own.
\<close>

definition supplied_unmasked ::
  "bool \<Rightarrow> merge_candidate list \<Rightarrow> str8_t \<Rightarrow> document \<Rightarrow> bool" where
  "supplied_unmasked own_context cs t d =
     (\<exists>i<length cs. \<exists>a ts.
        ap (cs ! i) = Some a \<and> terms (cs ! i) = Some ts \<and> t \<in> fst ` set ts \<and>
        (\<exists>k<length cs. \<exists>ts' tctx.
           terms (cs ! k) = Some ts' \<and> (t, tctx) \<in> set ts' \<and> (own_context \<longrightarrow> k = i) \<and>
           d \<in> set (dec_docs (new_decoder a tctx))) \<and>
        (\<forall>j<i. doc_id d \<notin> set (maskedDocuments (cs ! j))))"

lemma supplied_unmasked_mono:
  "supplied_unmasked True cs t d \<Longrightarrow> supplied_unmasked own cs t d"
  unfolding supplied_unmasked_def by blast



































section \<open>Masking is by the candidates before\<close>





end
